theory Spec2Isabelle
  imports Main "HOL-Library.Char_ord" "HOL-Library.List_Lexorder" "HOL-Library.Sublist"
begin

section \<open>Errors and machine arithmetic\<close>

text \<open>
  Go reports recoverable failures as error values and unrecoverable ones as panics.
  Both are values of one datatype here; every function of the model that can fail
  returns \<open>error + 'a\<close> with \<open>Inl\<close> for the failure.
\<close>

datatype error =
    InvalidBoardDimensions
  | WordsFileError
  | FailedToReadWordsFile
  | NotEnoughLetters
  | TooManyLetters
  | PanicDivideByZero
  | PanicIndexOutOfRange
  | PanicMakeSlice
  | PanicGridLength

text \<open>
  Go's \<open>int\<close> has 64 bits on the platforms the program is built for. It is modelled as
  \<open>int\<close> with the wrap-around of every arithmetic operation written out: \<open>wrap64\<close>
  maps a mathematical result to the value the machine keeps. Division truncates towards
  zero.
\<close>

definition inInt64 :: "int \<Rightarrow> bool" where
  "inInt64 n = (- (2 ^ 63) \<le> n \<and> n < 2 ^ 63)"

definition wrap64 :: "int \<Rightarrow> int" where
  "wrap64 n = (n + 2 ^ 63) mod 2 ^ 64 - 2 ^ 63"

definition add64 :: "int \<Rightarrow> int \<Rightarrow> int" where
  "add64 a b = wrap64 (a + b)"

definition sub64 :: "int \<Rightarrow> int \<Rightarrow> int" where
  "sub64 a b = wrap64 (a - b)"

definition mul64 :: "int \<Rightarrow> int \<Rightarrow> int" where
  "mul64 a b = wrap64 (a * b)"

definition go_div :: "int \<Rightarrow> int \<Rightarrow> int" where
  "go_div a b = sgn a * sgn b * (\<bar>a\<bar> div \<bar>b\<bar>)"

definition div64 :: "int \<Rightarrow> int \<Rightarrow> int" where
  "div64 a b = wrap64 (go_div a b)"

section \<open>Adjacency (calculateAdjacency)\<close>

text \<open>
  The source appends to a package-level scratch slice that it truncates first; the
  model returns the appended values as a fresh list. The three row blocks of the source
  are kept as separate pieces.
\<close>

definition calculateAdjacency :: "int \<Rightarrow> int \<Rightarrow> int \<Rightarrow> error + int list" where
  "calculateAdjacency xlim ylim sq =
     (if xlim = 0 then Inl PanicDivideByZero
      else
        let y = div64 sq xlim;
            x = sub64 sq (mul64 y xlim);
            adj1 = (if sub64 y 1 \<ge> 0
                    then (let above = sub64 sq xlim
                          in (if sub64 x 1 \<ge> 0 then [sub64 above 1] else []) @ [above]
                             @ (if add64 x 1 < xlim then [add64 above 1] else []))
                    else []);
            adj2 = adj1 @ (if sub64 x 1 \<ge> 0 then [sub64 sq 1] else []);
            adj3 = adj2 @ (if add64 x 1 < xlim then [add64 sq 1] else []);
            adj4 = adj3 @ (if add64 y 1 < ylim
                    then (let below = add64 sq xlim
                          in (if sub64 x 1 \<ge> 0 then [sub64 below 1] else []) @ [below]
                             @ (if add64 x 1 < xlim then [add64 below 1] else []))
                    else [])
        in Inr adj4)"

section \<open>Result normalisation (uniqueSortedWords)\<close>

text \<open>
  Go strings are byte sequences compared bytewise; \<open>string\<close> with the lexicographic
  order on \<open>char list\<close> is the same order. \<open>sort.Sort\<close> is not stable, but equal
  strings are indistinguishable, so its result is the one sorted permutation.
\<close>

fun uniqueLoop :: "string \<Rightarrow> string list \<Rightarrow> string list \<Rightarrow> string list" where
  "uniqueLoop prev [] unique = unique"
| "uniqueLoop prev (w # ws) unique =
     (if w \<noteq> prev then uniqueLoop w ws (unique @ [w]) else uniqueLoop prev ws unique)"

definition uniqueSortedWords :: "string list \<Rightarrow> string list" where
  "uniqueSortedWords words =
     (if length words = 0 then words else uniqueLoop [] (sort words) [])"

section \<open>Case folding of ASCII strings\<close>

text \<open>
  \<open>strings.ToLower\<close> and \<open>strings.ToUpper\<close> work byte by byte on a string all of
  whose bytes are below 128, which is what the two definitions below do. On other
  strings Go decodes UTF-8 and consults the Unicode tables; that path is not modelled,
  and every theorem about a function that folds the case of a string assumes
  \<open>isASCII\<close> of that string.
\<close>

definition isASCII :: "string \<Rightarrow> bool" where
  "isASCII str = (\<forall>c \<in> set str. (of_char c :: nat) < 128)"

definition toLowerByte :: "char \<Rightarrow> char" where
  "toLowerByte c = (if CHR ''A'' \<le> c \<and> c \<le> CHR ''Z'' then char_of (of_char c + (32::nat)) else c)"

definition toUpperByte :: "char \<Rightarrow> char" where
  "toUpperByte c = (if CHR ''a'' \<le> c \<and> c \<le> CHR ''z'' then char_of (of_char c - (32::nat)) else c)"

definition ToLower :: "string \<Rightarrow> string" where
  "ToLower str = map toLowerByte str"

definition ToUpper :: "string \<Rightarrow> string" where
  "ToUpper str = map toUpperByte str"

text \<open>Indexing a Go string, slice or array panics outside its range.\<close>

definition index :: "'a list \<Rightarrow> int \<Rightarrow> error + 'a" where
  "index xs i = (if 0 \<le> i \<and> i < int (length xs) then Inr (xs ! nat i) else Inl PanicIndexOutOfRange)"

section \<open>The prefix structure\<close>

text \<open>
  Modelled from the spec: the dictionary of \<open>solver.go\<close> is a tree of package
  \<open>github.com/gammazero/radixtree\<close>, which the sources import but do not contain.
  The spec describes it as a prefix structure that is built once and then queried
  letter by letter (a single step of prefix descent yields the node reached, or reports
  that no entry continues that way), with whole-word queries at the position reached.
  The model keeps the set of keys (as a list without repetition, in insertion order) and
  lets a stepper be the sequence of symbols it has consumed: a step succeeds when the
  extended sequence is still a prefix of some key, and the stepper holds an item when
  the consumed sequence is itself a key. A step that does not succeed leaves the stepper
  where it was.
\<close>

datatype Tree = Tree (keys: "string list")

definition Put :: "Tree \<Rightarrow> string \<Rightarrow> Tree" where
  "Put t key = (if key \<in> set (keys t) then t else Tree (keys t @ [key]))"

definition Len :: "Tree \<Rightarrow> int" where
  "Len t = int (length (keys t))"

record Stepper =
  tree :: Tree
  consumed :: string

definition NewStepper :: "Tree \<Rightarrow> Stepper" where
  "NewStepper t = \<lparr>tree = t, consumed = []\<rparr>"

definition Copy :: "Stepper \<Rightarrow> Stepper" where
  "Copy st = st"

definition Next :: "Stepper \<Rightarrow> char \<Rightarrow> bool \<times> Stepper" where
  "Next st radix =
     (if \<exists>k \<in> set (keys (tree st)). prefix (consumed st @ [radix]) k
      then (True, st\<lparr>consumed := consumed st @ [radix]\<rparr>)
      else (False, st))"

definition Item :: "Stepper \<Rightarrow> string option" where
  "Item st = (if consumed st \<in> set (keys (tree st)) then Some (consumed st) else None)"

section \<open>Building the solver (loadWords, New)\<close>

text \<open>
  The scanning loop of \<open>loadWords\<close>. The word source (file, embedded list,
  decompression) is outside the model: \<open>loadWords\<close> receives either the error that
  opening or reading it gave, or the lines read.
\<close>

fun scanWords :: "string list \<Rightarrow> int \<Rightarrow> int \<Rightarrow> Tree \<Rightarrow> error + Tree" where
  "scanWords [] maxLen minLen t = Inr t"
| "scanWords (word # rest) maxLen minLen t =
     (if int (length word) > maxLen \<or> int (length word) < minLen
      then scanWords rest maxLen minLen t
      else (case word of
              [] \<Rightarrow> Inl PanicIndexOutOfRange
            | c0 # w1 \<Rightarrow>
                if c0 < CHR ''a'' then scanWords rest maxLen minLen t
                else if c0 = CHR ''q''
                then (case w1 of
                        [] \<Rightarrow> Inl PanicIndexOutOfRange
                      | c1 # w2 \<Rightarrow>
                          if c1 \<noteq> CHR ''u'' then scanWords rest maxLen minLen t
                          else scanWords rest maxLen minLen (Put t (''q'' @ w2)))
                else scanWords rest maxLen minLen (Put t word)))"

definition loadWords :: "error + string list \<Rightarrow> int \<Rightarrow> int \<Rightarrow> error + Tree" where
  "loadWords source maxLen minLen =
     (case source of
        Inl e \<Rightarrow> Inl e
      | Inr lines \<Rightarrow> scanWords lines maxLen minLen (Tree []))"

record Solver =
  cols :: int
  rows :: int
  rt :: "Tree option"

definition New :: "int \<Rightarrow> int \<Rightarrow> error + string list \<Rightarrow> error + Solver" where
  "New xlen ylen source =
     (if xlen < 1 \<or> ylen < 1 then Inl InvalidBoardDimensions
      else (case loadWords source (mul64 xlen ylen) 3 of
              Inl e \<Rightarrow> Inl e
            | Inr t \<Rightarrow> Inr \<lparr>cols = xlen, rows = ylen, rt = Some t\<rparr>))"

definition BoardSize :: "Solver \<Rightarrow> int" where
  "BoardSize s = mul64 (cols s) (rows s)"

section \<open>The search (Solve)\<close>

record qNode =
  parentSquare :: int
  parentTrie :: Stepper
  seen :: "int list"

text \<open>The scan of the visited list that guards each neighbour.\<close>

fun inSeen :: "int list \<Rightarrow> int \<Rightarrow> bool" where
  "inSeen [] curSq = False"
| "inSeen (v # vs) curSq = (if v = curSq then True else inSeen vs curSq)"

text \<open>
  The loop over the neighbours of the state taken from the queue. It threads the queue
  and the words found so far; a new state is appended to the queue, a word to the words.
\<close>

fun adjLoop :: "string \<Rightarrow> qNode \<Rightarrow> int list \<Rightarrow> qNode list \<times> string list
    \<Rightarrow> error + (qNode list \<times> string list)" where
  "adjLoop board qn [] (q, words) = Inr (q, words)"
| "adjLoop board qn (curSq # rest) (q, words) =
     (if inSeen (seen qn) curSq then adjLoop board qn rest (q, words)
      else (case index board curSq of
              Inl e \<Rightarrow> Inl e
            | Inr c \<Rightarrow>
                (case Next (Copy (parentTrie qn)) c of
                   (False, curNode) \<Rightarrow> adjLoop board qn rest (q, words)
                 | (True, curNode) \<Rightarrow>
                     (let newSeen = seen qn @ [curSq];
                          q' = q @ [\<lparr>parentSquare = curSq, parentTrie = curNode, seen = newSeen\<rparr>]
                      in (case Item curNode of
                            None \<Rightarrow> adjLoop board qn rest (q', words)
                          | Some key \<Rightarrow>
                              (case key of
                                 [] \<Rightarrow> Inl PanicIndexOutOfRange
                               | k0 # k1 \<Rightarrow>
                                   if k0 = CHR ''q''
                                   then adjLoop board qn rest (q', words @ [''qu'' @ k1])
                                   else adjLoop board qn rest (q', words @ [key])))))))"

text \<open>
  The loop that empties the queue. Nothing in its shape bounds the number of
  iterations, so it is a partial function: \<open>None\<close> stands for a run that never ends.
\<close>

partial_function (option) drain :: "Solver \<Rightarrow> string \<Rightarrow> qNode list \<Rightarrow> string list
    \<Rightarrow> (error + string list) option" where
  "drain s board q words =
     (case q of
        [] \<Rightarrow> Some (Inr words)
      | qn # q1 \<Rightarrow>
          (case calculateAdjacency (cols s) (rows s) (parentSquare qn) of
             Inl e \<Rightarrow> Some (Inl e)
           | Inr sqAdj \<Rightarrow>
               (case adjLoop board qn sqAdj (q1, words) of
                  Inl e \<Rightarrow> Some (Inl e)
                | Inr (q2, words2) \<Rightarrow> drain s board q2 words2)))"

declare drain.simps [code]

text \<open>
  The loop over the starting squares. The result of the first step of the stepper is
  not looked at; the state is put on the queue in any case.
\<close>

fun startLoop :: "Solver \<Rightarrow> Tree \<Rightarrow> string \<Rightarrow> int list \<Rightarrow> string list
    \<Rightarrow> (error + string list) option" where
  "startLoop s t board [] words = Some (Inr words)"
| "startLoop s t board (initSq # rest) words =
     (case index board initSq of
        Inl e \<Rightarrow> Some (Inl e)
      | Inr c \<Rightarrow>
          (let stepper = snd (Next (NewStepper t) c)
           in (case drain s board [\<lparr>parentSquare = initSq, parentTrie = stepper, seen = [initSq]\<rparr>] words of
                 None \<Rightarrow> None
               | Some (Inl e) \<Rightarrow> Some (Inl e)
               | Some (Inr words') \<Rightarrow> startLoop s t board rest words')))"

text \<open>
  The part of \<open>Solve\<close> that follows the case folding, for a given list of starting
  squares: the search from each of them in turn, then the normalisation of the words.
  \<open>Solve\<close> runs it for the squares \<open>0\<close> to \<open>len(board) - 1\<close>.
\<close>

definition searchFrom :: "Solver \<Rightarrow> Tree \<Rightarrow> string \<Rightarrow> int list \<Rightarrow> (error + string list) option" where
  "searchFrom s t board starts =
     (case startLoop s t board starts [] of
        None \<Rightarrow> None
      | Some (Inl e) \<Rightarrow> Some (Inl e)
      | Some (Inr words) \<Rightarrow> Some (Inr (uniqueSortedWords words)))"

definition Solve :: "Solver \<Rightarrow> string \<Rightarrow> (error + string list) option" where
  "Solve s grid =
     (case rt s of
        None \<Rightarrow> Some (Inl FailedToReadWordsFile)
      | Some t \<Rightarrow>
          if int (length grid) \<noteq> BoardSize s
          then (if int (length grid) < BoardSize s then Some (Inl NotEnoughLetters)
                else Some (Inl TooManyLetters))
          else (let board = ToLower grid
                in searchFrom s t board (map int [0..<length board])))"

section \<open>Grid rendering (GridString)\<close>

text \<open>\<open>strings.Join\<close>, and \<open>fmt.Sprintf(" %c ", cell)\<close> for a byte: a byte from 128
  on is printed as the two-byte UTF-8 encoding of that code point.\<close>

fun Join :: "string list \<Rightarrow> string \<Rightarrow> string" where
  "Join [] sep = []"
| "Join [e] sep = e"
| "Join (e # e' # es) sep = e @ sep @ Join (e' # es) sep"

definition sprintfCell :: "char \<Rightarrow> string" where
  "sprintfCell cell =
     (let n = (of_char cell :: nat)
      in if n < 128 then [CHR '' '', cell, CHR '' '']
         else [CHR '' '', char_of (192 + n div 64), char_of (128 + n mod 64), CHR '' ''])"

text \<open>
  The parameters \<open>cols\<close> and \<open>rows\<close> of the source are \<open>ncols\<close> and \<open>nrows\<close> here.
  The loop counters run over \<open>[0..n - 1]\<close>, which is empty when \<open>n\<close> is not positive.
\<close>

fun cellLoop :: "string \<Rightarrow> int \<Rightarrow> int list \<Rightarrow> string list \<Rightarrow> error + string list" where
  "cellLoop gridChars yi [] line = Inr line"
| "cellLoop gridChars yi (x # xs) line =
     (case index gridChars (add64 yi x) of
        Inl e \<Rightarrow> Inl e
      | Inr cell \<Rightarrow>
          if 0 \<le> add64 1 x \<and> add64 1 x < int (length line)
          then cellLoop gridChars yi xs
                 (line[nat (add64 1 x) := (if cell = CHR ''Q'' then '' Qu'' else sprintfCell cell)])
          else Inl PanicIndexOutOfRange)"

fun rowLoop :: "string \<Rightarrow> int \<Rightarrow> int list \<Rightarrow> string list \<Rightarrow> string list
    \<Rightarrow> error + string list" where
  "rowLoop gridChars ncols [] line gridLines = Inr gridLines"
| "rowLoop gridChars ncols (y # ys) line gridLines =
     (case cellLoop gridChars (mul64 y ncols) [0..ncols - 1] line of
        Inl e \<Rightarrow> Inl e
      | Inr line' \<Rightarrow> rowLoop gridChars ncols ys line' (gridLines @ [Join line' ''|'']))"

definition GridString :: "string \<Rightarrow> int \<Rightarrow> int \<Rightarrow> error + string" where
  "GridString grid ncols nrows =
     (if int (length grid) \<noteq> mul64 ncols nrows then Inl PanicGridLength
      else if add64 ncols 2 < 0 then Inl PanicMakeSlice
      else
        let gridChars = ToUpper grid;
            line = [[]] @ replicate (nat ncols) ''---'' @ [[CHR 0x0A]];
            hline = Join line ''+''
        in if add64 (mul64 2 nrows) 1 < 0 then Inl PanicMakeSlice
           else (case rowLoop gridChars ncols [0..nrows - 1] line [[]] of
                   Inl e \<Rightarrow> Inl e
                 | Inr gridLines \<Rightarrow> Inr (Join (gridLines @ [[]]) hline)))"

section \<open>The array-backed trie (trie.go)\<close>

text \<open>
  A node owns its children, so the pointer structure is a tree and an insertion that
  updates a node in place is the function that returns the updated node. The child
  array has 26 entries; an entry is \<open>None\<close> for a nil pointer. A rune is a 32-bit
  integer, and the subtraction that gives the index wraps around in 32 bits. The loops
  range over the runes of the lower-cased word, which for an ASCII string are its bytes.
\<close>

datatype Trie = Trie (isWord: bool) (children: "Trie option list")

type_synonym rune = int

definition inInt32 :: "int \<Rightarrow> bool" where
  "inInt32 n = (- (2 ^ 31) \<le> n \<and> n < 2 ^ 31)"

definition wrap32 :: "int \<Rightarrow> int" where
  "wrap32 n = (n + 2 ^ 31) mod 2 ^ 32 - 2 ^ 31"

definition NewTrie :: Trie where
  "NewTrie = Trie False (replicate 26 None)"

definition runes :: "string \<Rightarrow> rune list" where
  "runes str = map (\<lambda>c. int (of_char c)) str"

definition childIndex :: "rune \<Rightarrow> int" where
  "childIndex c = wrap32 (c - 97)"

fun insertLoop :: "Trie \<Rightarrow> rune list \<Rightarrow> error + Trie" where
  "insertLoop t [] = Inr (Trie True (children t))"
| "insertLoop t (c # cs) =
     (case index (children t) (childIndex c) of
        Inl e \<Rightarrow> Inl e
      | Inr next \<Rightarrow>
          (case insertLoop (case next of None \<Rightarrow> NewTrie | Some n \<Rightarrow> n) cs of
             Inl e \<Rightarrow> Inl e
           | Inr n' \<Rightarrow> Inr (Trie (isWord t) ((children t)[nat (childIndex c) := Some n']))))"

definition Insert :: "Trie \<Rightarrow> string \<Rightarrow> error + Trie" where
  "Insert t word = insertLoop t (runes (ToLower word))"

fun containsLoop :: "Trie \<Rightarrow> rune list \<Rightarrow> error + bool" where
  "containsLoop t [] = Inr (isWord t)"
| "containsLoop t (c # cs) =
     (case index (children t) (childIndex c) of
        Inl e \<Rightarrow> Inl e
      | Inr None \<Rightarrow> Inr False
      | Inr (Some n) \<Rightarrow> containsLoop n cs)"

definition ContainsWord :: "Trie \<Rightarrow> string \<Rightarrow> error + bool" where
  "ContainsWord t word = containsLoop t (runes (ToLower word))"

definition Child :: "Trie \<Rightarrow> rune \<Rightarrow> error + Trie option" where
  "Child t c = index (children t) (childIndex c)"

definition ContainsLetter :: "Trie \<Rightarrow> rune \<Rightarrow> error + bool" where
  "ContainsLetter t c = (case Child t c of Inl e \<Rightarrow> Inl e | Inr n \<Rightarrow> Inr (n \<noteq> None))"

definition IsWord :: "Trie \<Rightarrow> bool" where
  "IsWord t = isWord t"

text \<open>Inserting a sequence of words one after the other, starting from a given trie.\<close>

fun insertAll :: "Trie \<Rightarrow> string list \<Rightarrow> error + Trie" where
  "insertAll t [] = Inr t"
| "insertAll t (w # ws) = (case Insert t w of Inl e \<Rightarrow> Inl e | Inr t' \<Rightarrow> insertAll t' ws)"

section \<open>Notions of the specification\<close>

text \<open>
  The definitions of this section are not translations of code. They say, in the words
  of the specification, what the functions above are compared with.
\<close>

subsection \<open>Neighbours, corners, edges\<close>

definition Neighbors :: "int \<Rightarrow> int \<Rightarrow> int \<Rightarrow> int list" where
  "Neighbors ncols nrows cell =
     (let x = cell mod ncols; y = cell div ncols
      in map (\<lambda>(dx, dy). (y + dy) * ncols + (x + dx))
           (filter (\<lambda>(dx, dy). 0 \<le> x + dx \<and> x + dx < ncols \<and> 0 \<le> y + dy \<and> y + dy < nrows)
              [(-1, -1), (0, -1), (1, -1), (-1, 0), (1, 0), (-1, 1), (0, 1), (1, 1)]))"

definition onLeft :: "int \<Rightarrow> int \<Rightarrow> bool" where
  "onLeft ncols cell = (cell mod ncols = 0)"

definition onRight :: "int \<Rightarrow> int \<Rightarrow> bool" where
  "onRight ncols cell = (cell mod ncols = ncols - 1)"

definition onTop :: "int \<Rightarrow> int \<Rightarrow> bool" where
  "onTop ncols cell = (cell div ncols = 0)"

definition onBottom :: "int \<Rightarrow> int \<Rightarrow> int \<Rightarrow> bool" where
  "onBottom ncols nrows cell = (cell div ncols = nrows - 1)"

definition isCorner :: "int \<Rightarrow> int \<Rightarrow> int \<Rightarrow> bool" where
  "isCorner ncols nrows cell =
     ((onLeft ncols cell \<or> onRight ncols cell) \<and> (onTop ncols cell \<or> onBottom ncols nrows cell))"

definition isInterior :: "int \<Rightarrow> int \<Rightarrow> int \<Rightarrow> bool" where
  "isInterior ncols nrows cell =
     (\<not> onLeft ncols cell \<and> \<not> onRight ncols cell \<and> \<not> onTop ncols cell
      \<and> \<not> onBottom ncols nrows cell)"

definition isEdge :: "int \<Rightarrow> int \<Rightarrow> int \<Rightarrow> bool" where
  "isEdge ncols nrows cell = (\<not> isCorner ncols nrows cell \<and> \<not> isInterior ncols nrows cell)"

subsection \<open>Simple paths and the words they spell\<close>

definition inGrid :: "int \<Rightarrow> int \<Rightarrow> int \<Rightarrow> bool" where
  "inGrid ncols nrows cell = (0 \<le> cell \<and> cell < ncols * nrows)"

definition adjacentCells :: "int \<Rightarrow> int \<Rightarrow> int \<Rightarrow> bool" where
  "adjacentCells ncols a b =
     (a \<noteq> b \<and> \<bar>a div ncols - b div ncols\<bar> \<le> 1 \<and> \<bar>a mod ncols - b mod ncols\<bar> \<le> 1)"

definition simplePath :: "int \<Rightarrow> int \<Rightarrow> int list \<Rightarrow> bool" where
  "simplePath ncols nrows p =
     (p \<noteq> [] \<and> distinct p \<and> list_all (inGrid ncols nrows) p
      \<and> successively (adjacentCells ncols) p)"

definition lettersOf :: "string \<Rightarrow> int list \<Rightarrow> string" where
  "lettersOf board p = map (\<lambda>cell. board ! nat cell) p"

definition spellable :: "int \<Rightarrow> int \<Rightarrow> string \<Rightarrow> string \<Rightarrow> bool" where
  "spellable ncols nrows board key = (\<exists>p. simplePath ncols nrows p \<and> lettersOf board p = key)"

definition rehydrate :: "string \<Rightarrow> string" where
  "rehydrate key = (case key of [] \<Rightarrow> [] | k0 # k1 \<Rightarrow> if k0 = CHR ''q'' then ''qu'' @ k1 else key)"

definition solutions :: "Solver \<Rightarrow> Tree \<Rightarrow> string \<Rightarrow> string set" where
  "solutions s t board =
     rehydrate ` {key \<in> set (keys t). spellable (cols s) (rows s) board key}"

subsection \<open>The accepted words of a word list\<close>

definition accepted :: "int \<Rightarrow> string \<Rightarrow> bool" where
  "accepted maxLen word =
     (3 \<le> length word \<and> int (length word) \<le> maxLen \<and> CHR ''a'' \<le> hd word
      \<and> (hd word = CHR ''q'' \<longrightarrow> word ! 1 = CHR ''u''))"

definition collapse :: "string \<Rightarrow> string" where
  "collapse word = (if hd word = CHR ''q'' then CHR ''q'' # drop 2 word else word)"

subsection \<open>States placed on the frontier\<close>

text \<open>
  A state is placed on the frontier either for a starting square, or by the loop over
  the neighbours of a state that was placed before.
\<close>

inductive placed :: "Solver \<Rightarrow> Tree \<Rightarrow> string \<Rightarrow> qNode \<Rightarrow> bool" for s t board where
  start: "index board initSq = Inr c \<Longrightarrow>
          placed s t board \<lparr>parentSquare = initSq, parentTrie = snd (Next (NewStepper t) c),
                            seen = [initSq]\<rparr>"
| extend: "placed s t board qn \<Longrightarrow>
           calculateAdjacency (cols s) (rows s) (parentSquare qn) = Inr sqAdj \<Longrightarrow>
           adjLoop board qn sqAdj ([], []) = Inr (q, words) \<Longrightarrow>
           child \<in> set q \<Longrightarrow>
           placed s t board child"

subsection \<open>The search with one starting square left out\<close>

definition SolveOmitting :: "Solver \<Rightarrow> string \<Rightarrow> int \<Rightarrow> (error + string list) option" where
  "SolveOmitting s grid cell =
     (case rt s of
        None \<Rightarrow> Some (Inl FailedToReadWordsFile)
      | Some t \<Rightarrow>
          if int (length grid) \<noteq> BoardSize s
          then (if int (length grid) < BoardSize s then Some (Inl NotEnoughLetters)
                else Some (Inl TooManyLetters))
          else (let board = ToLower grid
                in searchFrom s t board (filter (\<lambda>i. i \<noteq> cell) (map int [0..<length board]))))"

subsection \<open>Auxiliary notions for the proofs about the search\<close>

text \<open>A sequence of symbols is live when some key begins with it.\<close>

definition live :: "Tree \<Rightarrow> string \<Rightarrow> bool" where
  "live t p = (\<exists>k \<in> set (keys t). prefix p k)"

text \<open>
  The ways to continue a path that has reached square \<open>sq\<close> and visited \<open>sn\<close>: the
  non-empty sequences of fresh, pairwise different squares of the grid, each adjacent
  to the one before it.
\<close>

definition extensions :: "int \<Rightarrow> int \<Rightarrow> int \<Rightarrow> int list \<Rightarrow> int list set" where
  "extensions ncols nrows sq sn =
     {cs. cs \<noteq> [] \<and> successively (adjacentCells ncols) (sq # cs) \<and> distinct cs
          \<and> set cs \<inter> set sn = {} \<and> list_all (inGrid ncols nrows) cs}"

text \<open>The words that the continuations of a state spell.\<close>

definition found :: "Solver \<Rightarrow> Tree \<Rightarrow> string \<Rightarrow> qNode \<Rightarrow> string set" where
  "found s t board qn =
     {rehydrate (consumed (parentTrie qn) @ lettersOf board cs) | cs.
        cs \<in> extensions (cols s) (rows s) (parentSquare qn) (seen qn)
        \<and> consumed (parentTrie qn) @ lettersOf board cs \<in> set (keys t)}"

definition validState :: "Solver \<Rightarrow> Tree \<Rightarrow> qNode \<Rightarrow> bool" where
  "validState s t qn =
     (inGrid (cols s) (rows s) (parentSquare qn) \<and> distinct (seen qn)
      \<and> list_all (inGrid (cols s) (rows s)) (seen qn) \<and> tree (parentTrie qn) = t)"

text \<open>
  A board fits a solver when the solver has at least one column and one row, its number
  of cells is a machine integer, and the board has one byte for each cell.
\<close>

definition fits :: "Solver \<Rightarrow> string \<Rightarrow> bool" where
  "fits s board =
     (1 \<le> cols s \<and> 1 \<le> rows s \<and> cols s * rows s < 2 ^ 63
      \<and> int (length board) = cols s * rows s)"

text \<open>The state and the word that one neighbour gives rise to.\<close>

definition extendsTo :: "string \<Rightarrow> qNode \<Rightarrow> int \<Rightarrow> bool" where
  "extendsTo board qn c =
     (c \<notin> set (seen qn)
      \<and> live (tree (parentTrie qn)) (consumed (parentTrie qn) @ [board ! nat c]))"

definition childState :: "string \<Rightarrow> qNode \<Rightarrow> int \<Rightarrow> qNode" where
  "childState board qn c =
     \<lparr>parentSquare = c,
      parentTrie = (parentTrie qn)\<lparr>consumed := consumed (parentTrie qn) @ [board ! nat c]\<rparr>,
      seen = seen qn @ [c]\<rparr>"

definition completes :: "string \<Rightarrow> qNode \<Rightarrow> int \<Rightarrow> bool" where
  "completes board qn c =
     (c \<notin> set (seen qn)
      \<and> consumed (parentTrie qn) @ [board ! nat c] \<in> set (keys (tree (parentTrie qn))))"

definition pushed :: "string \<Rightarrow> qNode \<Rightarrow> int list \<Rightarrow> qNode list" where
  "pushed board qn adj = map (childState board qn) (filter (extendsTo board qn) adj)"

definition reported :: "string \<Rightarrow> qNode \<Rightarrow> int list \<Rightarrow> string list" where
  "reported board qn adj =
     map (\<lambda>c. rehydrate (consumed (parentTrie qn) @ [board ! nat c])) (filter (completes board qn) adj)"

definition initState :: "Tree \<Rightarrow> string \<Rightarrow> int \<Rightarrow> qNode" where
  "initState t board initSq =
     \<lparr>parentSquare = initSq, parentTrie = snd (Next (NewStepper t) (board ! nat initSq)),
      seen = [initSq]\<rparr>"

text \<open>The measure that decreases with every state taken from the queue.\<close>

definition weight :: "nat \<Rightarrow> qNode \<Rightarrow> nat" where
  "weight n qn = 9 ^ (n - length (seen qn))"

definition queueWeight :: "nat \<Rightarrow> qNode list \<Rightarrow> nat" where
  "queueWeight n q = sum_list (map (weight n) q)"

text \<open>Well-formed tries: every node has its 26 child entries.\<close>

fun wfTrie :: "Trie \<Rightarrow> bool" where
  "wfTrie (Trie w cs) =
     (length cs = 26 \<and> (\<forall>c \<in> set cs. case c of None \<Rightarrow> True | Some n \<Rightarrow> wfTrie n))"

text \<open>The lower-case letters, as runes and as bytes.\<close>

definition lowerRune :: "rune \<Rightarrow> bool" where
  "lowerRune c = (97 \<le> c \<and> c \<le> 122)"

definition lowerWord :: "string \<Rightarrow> bool" where
  "lowerWord word = list_all lowerRune (runes (ToLower word))"

section \<open>Machine arithmetic within range\<close>

lemma wrap64_id: "inInt64 n \<Longrightarrow> wrap64 n = n"
  by (simp add: inInt64_def wrap64_def)

lemma add64_id: "inInt64 (a + b) \<Longrightarrow> add64 a b = a + b"
  by (simp add: add64_def wrap64_id)

lemma sub64_id: "inInt64 (a - b) \<Longrightarrow> sub64 a b = a - b"
  by (simp add: sub64_def wrap64_id)

lemma mul64_id: "inInt64 (a * b) \<Longrightarrow> mul64 a b = a * b"
  by (simp add: mul64_def wrap64_id)

lemma go_div_nonneg: "0 \<le> a \<Longrightarrow> 0 < b \<Longrightarrow> go_div a b = a div b"
  by (simp add: go_div_def sgn_if)

lemma wrap32_id: "inInt32 n \<Longrightarrow> wrap32 n = n"
  by (simp add: inInt32_def wrap32_def)

section \<open>Adjacency\<close>

lemma cell_row_bounds:
  fixes xlim ylim sq :: int
  assumes "1 \<le> xlim" "0 \<le> sq" "sq < xlim * ylim"
  shows "0 \<le> sq div xlim \<and> sq div xlim < ylim"
proof -
  have p: "0 < xlim" using assms by linarith
  have a: "0 \<le> sq div xlim" using assms p by (simp add: pos_imp_zdiv_nonneg_iff)
  have b: "sq div xlim < ylim"
  proof (rule ccontr)
    assume "\<not> sq div xlim < ylim"
    then have "xlim * ylim \<le> xlim * (sq div xlim)"
      using p by (simp add: mult_left_mono)
    moreover have "xlim * (sq div xlim) \<le> sq"
    proof -
      have "sq = xlim * (sq div xlim) + sq mod xlim" by simp
      moreover have "0 \<le> sq mod xlim" using p by simp
      ultimately show ?thesis by linarith
    qed
    ultimately show False using assms(3) by linarith
  qed
  from a b show ?thesis by simp
qed

lemma cell_of_coordinates:
  fixes xlim ylim a b :: int
  assumes "0 \<le> a" "a < xlim" "0 \<le> b" "b < ylim"
  shows "0 \<le> b * xlim + a \<and> b * xlim + a < xlim * ylim
         \<and> (b * xlim + a) div xlim = b \<and> (b * xlim + a) mod xlim = a"
proof -
  have p: "0 < xlim" using assms by linarith
  have "0 \<le> b * xlim" using assms p by simp
  then have 1: "0 \<le> b * xlim + a" using assms by linarith
  have "(b + 1) * xlim \<le> ylim * xlim"
    using assms p by (intro mult_right_mono) simp_all
  then have 2: "b * xlim + a < xlim * ylim"
    using assms by (simp add: algebra_simps)
  have 3: "(b * xlim + a) div xlim = b" "(b * xlim + a) mod xlim = a"
    using assms by simp_all
  from 1 2 3 show ?thesis by simp
qed

text \<open>
  On a cell of a grid whose size is a machine integer no operation of the code wraps
  around, and the code computes the neighbours of the specification.
\<close>

lemma calculateAdjacency_Neighbors:
  assumes "1 \<le> xlim" "1 \<le> ylim" "xlim * ylim < 2 ^ 63" "0 \<le> sq" "sq < xlim * ylim"
  shows "calculateAdjacency xlim ylim sq = Inr (Neighbors xlim ylim sq)"
proof -
  define x where "x = sq mod xlim"
  define y where "y = sq div xlim"
  define n where "n = xlim * ylim"
  have n: "n < 9223372036854775808" "sq < n" using assms by (simp_all add: n_def)
  have sq: "sq = y * xlim + x" by (simp add: x_def y_def)
  have x: "0 \<le> x" "x < xlim" using assms by (simp_all add: x_def)
  have y: "0 \<le> y" "y < ylim"
    using cell_row_bounds[of xlim sq ylim] assms by (simp_all add: y_def)
  have yx: "0 \<le> y * xlim" using y assms(1) by simp
  have xl: "xlim \<le> n"
    using mult_left_mono[of 1 ylim xlim] assms by (simp add: n_def)
  have nz: "xlim \<noteq> 0" using assms by simp
  have yle: "y \<le> sq"
  proof -
    have "y * 1 \<le> y * xlim" using y assms(1) by (intro mult_left_mono) simp_all
    then show ?thesis using sq x by linarith
  qed
  have g: "div64 sq xlim = y"
  proof -
    have "go_div sq xlim = y" using assms go_div_nonneg[of sq xlim] by (simp add: y_def)
    moreover have "inInt64 y" using y yle n by (simp add: inInt64_def)
    ultimately show ?thesis by (simp add: div64_def wrap64_id)
  qed
  have m: "mul64 y xlim = y * xlim"
    using yx sq x n by (intro mul64_id) (simp add: inInt64_def)
  have x': "sub64 sq (y * xlim) = x"
  proof -
    have "inInt64 (sq - y * xlim)" using sq x n xl by (simp add: inInt64_def)
    then show ?thesis using sq by (simp add: sub64_id)
  qed
  have s1: "sub64 y 1 = y - 1" "sub64 x 1 = x - 1" "add64 x 1 = x + 1" "add64 y 1 = y + 1"
    "sub64 sq 1 = sq - 1" "add64 sq 1 = sq + 1" "sub64 sq xlim = sq - xlim"
    "sub64 (sq - xlim) 1 = sq - xlim - 1" "add64 (sq - xlim) 1 = sq - xlim + 1"
    using x y yle n xl assms(1,4)
    by (simp_all add: add64_id sub64_id inInt64_def)
  have above: "calculateAdjacency xlim ylim sq = Inr (
       (if y - 1 \<ge> 0
        then (if x - 1 \<ge> 0 then [sq - xlim - 1] else []) @ [sq - xlim]
             @ (if x + 1 < xlim then [sq - xlim + 1] else [])
        else [])
       @ (if x - 1 \<ge> 0 then [sq - 1] else [])
       @ (if x + 1 < xlim then [sq + 1] else [])
       @ (if y + 1 < ylim
          then (if x - 1 \<ge> 0 then [sub64 (add64 sq xlim) 1] else []) @ [add64 sq xlim]
               @ (if x + 1 < xlim then [add64 (add64 sq xlim) 1] else [])
          else []))"
    unfolding calculateAdjacency_def Let_def g m x' s1 using nz
    by (simp only: if_False append_assoc)
  have below: "y + 1 < ylim \<Longrightarrow> add64 sq xlim = sq + xlim
      \<and> sub64 (sq + xlim) 1 = sq + xlim - 1 \<and> add64 (sq + xlim) 1 = sq + xlim + 1"
  proof -
    assume "y + 1 < ylim"
    then have "(y + 2) * xlim \<le> ylim * xlim"
      using assms(1) by (intro mult_right_mono) simp_all
    then have "sq + xlim < n" using sq x by (simp add: n_def algebra_simps)
    then show ?thesis using n assms(1,4) by (simp add: add64_id sub64_id inInt64_def)
  qed
  have "calculateAdjacency xlim ylim sq = Inr (
       (if y - 1 \<ge> 0
        then (if x - 1 \<ge> 0 then [sq - xlim - 1] else []) @ [sq - xlim]
             @ (if x + 1 < xlim then [sq - xlim + 1] else [])
        else [])
       @ (if x - 1 \<ge> 0 then [sq - 1] else [])
       @ (if x + 1 < xlim then [sq + 1] else [])
       @ (if y + 1 < ylim
          then (if x - 1 \<ge> 0 then [sq + xlim - 1] else []) @ [sq + xlim]
               @ (if x + 1 < xlim then [sq + xlim + 1] else [])
          else []))"
  proof (cases "y + 1 < ylim")
    case True
    show ?thesis unfolding above using True below[OF True] by (simp only: if_True)
  next
    case False
    show ?thesis unfolding above using False by (simp only: if_False)
  qed
  also have "\<dots> = Inr (Neighbors xlim ylim sq)"
    unfolding Neighbors_def Let_def x_def[symmetric] y_def[symmetric]
    using x y by (simp add: sq algebra_simps)
  finally show ?thesis .
qed

lemma Neighbors_count:
  assumes "2 \<le> ncols" "2 \<le> nrows" "inGrid ncols nrows cell"
  shows "(isCorner ncols nrows cell \<longrightarrow> length (Neighbors ncols nrows cell) = 3)
       \<and> (isEdge ncols nrows cell \<longrightarrow> length (Neighbors ncols nrows cell) = 5)
       \<and> (isInterior ncols nrows cell \<longrightarrow> length (Neighbors ncols nrows cell) = 8)"
proof -
  define x where "x = cell mod ncols"
  define y where "y = cell div ncols"
  have x: "0 \<le> x" "x < ncols" using assms by (simp_all add: x_def)
  have y: "0 \<le> y" "y < nrows"
    using cell_row_bounds[of ncols cell nrows] assms by (simp_all add: y_def inGrid_def)
  show ?thesis
    unfolding Neighbors_def Let_def isCorner_def isEdge_def isInterior_def onLeft_def onRight_def
      onTop_def onBottom_def x_def[symmetric] y_def[symmetric]
    using x y assms(1,2) by auto
qed

text \<open>
  C4, as amended. For a grid with at least one column and one row whose number of cells
  is a machine integer (below \<open>2^63\<close>), and a cell of the grid, \<open>calculateAdjacency\<close>
  returns the in-bounds neighbours in the order above-left, above, above-right, left,
  right, below-left, below, below-right. When the grid has at least two columns and two
  rows, a corner cell has exactly 3 neighbours, an edge cell that is not a corner
  exactly 5, an interior cell exactly 8. On the 4 by 4 grid, cell 0 yields (1,4,5), cell
  3 yields (2,6,7), cell 1 yields (0,2,4,5,6) and cell 5 yields (0,1,2,4,6,8,9,10).
\<close>

theorem calculateAdjacency_in_bounds_ordered:
  assumes "1 \<le> ncols" "1 \<le> nrows" "ncols * nrows < 2 ^ 63" "inGrid ncols nrows cell"
  shows "calculateAdjacency ncols nrows cell = Inr (Neighbors ncols nrows cell)
       \<and> (2 \<le> ncols \<and> 2 \<le> nrows \<longrightarrow>
            (isCorner ncols nrows cell \<longrightarrow> length (Neighbors ncols nrows cell) = 3)
          \<and> (isEdge ncols nrows cell \<longrightarrow> length (Neighbors ncols nrows cell) = 5)
          \<and> (isInterior ncols nrows cell \<longrightarrow> length (Neighbors ncols nrows cell) = 8))
       \<and> calculateAdjacency 4 4 0 = Inr [1, 4, 5]
       \<and> calculateAdjacency 4 4 3 = Inr [2, 6, 7]
       \<and> calculateAdjacency 4 4 1 = Inr [0, 2, 4, 5, 6]
       \<and> calculateAdjacency 4 4 5 = Inr [0, 1, 2, 4, 6, 8, 9, 10]"
proof -
  have a: "calculateAdjacency ncols nrows cell = Inr (Neighbors ncols nrows cell)"
    using assms calculateAdjacency_Neighbors[of ncols nrows cell] by (simp add: inGrid_def)
  have b: "2 \<le> ncols \<and> 2 \<le> nrows \<longrightarrow>
            (isCorner ncols nrows cell \<longrightarrow> length (Neighbors ncols nrows cell) = 3)
          \<and> (isEdge ncols nrows cell \<longrightarrow> length (Neighbors ncols nrows cell) = 5)
          \<and> (isInterior ncols nrows cell \<longrightarrow> length (Neighbors ncols nrows cell) = 8)"
    using Neighbors_count[OF _ _ assms(4)] by blast
  have c: "calculateAdjacency 4 4 0 = Inr [1, 4, 5]" "calculateAdjacency 4 4 3 = Inr [2, 6, 7]"
     "calculateAdjacency 4 4 1 = Inr [0, 2, 4, 5, 6]"
     "calculateAdjacency 4 4 5 = Inr [0, 1, 2, 4, 6, 8, 9, 10]"
    by (simp_all add: calculateAdjacency_def div64_def sub64_def add64_def mul64_def wrap64_def
        go_div_def Let_def)
  from a b c show ?thesis by blast
qed

theorem calculateAdjacency_in_bounds_ordered_witness:
  "inGrid 4 4 5 \<and> isInterior 4 4 5 \<and> calculateAdjacency 4 4 5 = Inr (Neighbors 4 4 5)
   \<and> length (Neighbors 4 4 5) = 8 \<and> isCorner 4 4 3 \<and> length (Neighbors 4 4 3) = 3
   \<and> isEdge 4 4 1 \<and> length (Neighbors 4 4 1) = 5"
proof -
  have g: "inGrid 4 4 5" "inGrid 4 4 3" "inGrid 4 4 1" by (simp_all add: inGrid_def)
  have i: "isInterior 4 4 5" "isCorner 4 4 3" "isEdge 4 4 1"
    by (simp_all add: isInterior_def isCorner_def isEdge_def onLeft_def onRight_def onTop_def
        onBottom_def)
  show ?thesis
    using calculateAdjacency_in_bounds_ordered[of 4 4 5]
      calculateAdjacency_in_bounds_ordered[of 4 4 3]
      calculateAdjacency_in_bounds_ordered[of 4 4 1] g i by simp
qed

text \<open>
  C4 as stated fails on grids with a single column or a single row: the only cell of the
  1 by 1 grid is a corner without neighbours, and the middle cell of the grid with one
  column and three rows is an edge cell with two.
\<close>

theorem calculateAdjacency_narrow_grid_counts:
  "inGrid 1 1 0 \<and> isCorner 1 1 0 \<and> calculateAdjacency 1 1 0 = Inr []
   \<and> inGrid 1 3 1 \<and> isEdge 1 3 1 \<and> calculateAdjacency 1 3 1 = Inr [0, 2]"
  by (simp add: inGrid_def isCorner_def isEdge_def isInterior_def onLeft_def onRight_def onTop_def
      onBottom_def calculateAdjacency_def div64_def sub64_def add64_def mul64_def wrap64_def
      go_div_def Let_def)
section \<open>The neighbours of a cell are its adjacent cells\<close>

lemma length_Neighbors: "length (Neighbors ncols nrows cell) \<le> 8"
proof -
  have "length (Neighbors ncols nrows cell)
      \<le> length [(-1, -1), (0, -1), (1, -1), (-1, 0), (1, 0), (-1, 1), (0, 1), (1, 1 :: int) :: int \<times> int]"
    unfolding Neighbors_def Let_def length_map by (rule length_filter_le)
  then show ?thesis by simp
qed

lemma set_Neighbors:
  assumes "1 \<le> ncols" "inGrid ncols nrows cell"
  shows "set (Neighbors ncols nrows cell)
       = {c. inGrid ncols nrows c \<and> adjacentCells ncols cell c}"
proof -
  define x where "x = cell mod ncols"
  define y where "y = cell div ncols"
  have cell: "cell = y * ncols + x" by (simp add: x_def y_def)
  have x: "0 \<le> x" "x < ncols" using assms by (simp_all add: x_def)
  have y: "0 \<le> y" "y < nrows"
    using cell_row_bounds[of ncols cell nrows] assms by (simp_all add: y_def inGrid_def)
  let ?offs = "[(-1, -1), (0, -1), (1, -1), (-1, 0), (1, 0), (-1, 1), (0, 1), (1, 1 :: int) :: int \<times> int]"
  let ?f = "\<lambda>(dx, dy). (y + dy) * ncols + (x + dx)"
  let ?P = "\<lambda>(dx, dy). 0 \<le> x + dx \<and> x + dx < ncols \<and> 0 \<le> y + dy \<and> y + dy < nrows"
  have N: "set (Neighbors ncols nrows cell) = ?f ` {z \<in> set ?offs. ?P z}"
    unfolding Neighbors_def Let_def x_def[symmetric] y_def[symmetric]
    by (simp only: set_map set_filter)
  show ?thesis
  proof (rule set_eqI)
    fix c
    show "c \<in> set (Neighbors ncols nrows cell)
        \<longleftrightarrow> c \<in> {c. inGrid ncols nrows c \<and> adjacentCells ncols cell c}"
    proof
      assume "c \<in> set (Neighbors ncols nrows cell)"
      then obtain z where z: "z \<in> set ?offs" "?P z" "c = ?f z"
        unfolding N by blast
      obtain dx dy where zd: "z = (dx, dy)" by (cases z)
      have c: "c = (y + dy) * ncols + (x + dx)"
        and o: "(dx, dy) \<in> set ?offs"
        and b: "0 \<le> x + dx" "x + dx < ncols" "0 \<le> y + dy" "y + dy < nrows"
        using z unfolding zd by simp_all
      have cc: "0 \<le> c \<and> c < ncols * nrows \<and> c div ncols = y + dy \<and> c mod ncols = x + dx"
        unfolding c using cell_of_coordinates[OF b] .
      have d: "\<bar>dx\<bar> \<le> 1 \<and> \<bar>dy\<bar> \<le> 1 \<and> (dx \<noteq> 0 \<or> dy \<noteq> 0)"
        using o by (simp only: set_simps insert_iff empty_iff prod.inject) force
      have "cell \<noteq> c"
      proof
        assume "cell = c"
        then have "cell div ncols = c div ncols" "cell mod ncols = c mod ncols" by simp_all
        then show False using cc d by (simp add: x_def[symmetric] y_def[symmetric])
      qed
      then have "adjacentCells ncols cell c"
        using cc d by (simp add: adjacentCells_def x_def[symmetric] y_def[symmetric])
      then show "c \<in> {c. inGrid ncols nrows c \<and> adjacentCells ncols cell c}"
        using cc by (simp add: inGrid_def)
    next
      assume "c \<in> {c. inGrid ncols nrows c \<and> adjacentCells ncols cell c}"
      then have g: "inGrid ncols nrows c" and a: "adjacentCells ncols cell c" by simp_all
      define dx where "dx = c mod ncols - x"
      define dy where "dy = c div ncols - y"
      have cx: "0 \<le> c mod ncols" "c mod ncols < ncols" using assms by simp_all
      have cy: "0 \<le> c div ncols" "c div ncols < nrows"
        using cell_row_bounds[of ncols c nrows] assms g by (simp_all add: inGrid_def)
      have b: "0 \<le> x + dx" "x + dx < ncols" "0 \<le> y + dy" "y + dy < nrows"
        using cx cy by (simp_all add: dx_def dy_def)
      have c: "c = (y + dy) * ncols + (x + dx)" by (simp add: dx_def dy_def)
      have r: "\<bar>dx\<bar> \<le> 1" "\<bar>dy\<bar> \<le> 1"
        using a unfolding adjacentCells_def dx_def dy_def x_def y_def by linarith+
      have nz: "dx \<noteq> 0 \<or> dy \<noteq> 0"
      proof (rule ccontr)
        assume "\<not> (dx \<noteq> 0 \<or> dy \<noteq> 0)"
        then have "c = cell" using c cell by simp
        then show False using a by (simp add: adjacentCells_def)
      qed
      have "dx = -1 \<or> dx = 0 \<or> dx = 1" using r(1) by arith
      moreover have "dy = -1 \<or> dy = 0 \<or> dy = 1" using r(2) by arith
      ultimately have "(dx, dy) \<in> set ?offs"
        using nz by (simp only: set_simps insert_iff empty_iff prod.inject) blast
      then have "(dx, dy) \<in> {z \<in> set ?offs. ?P z}" using b by simp
      moreover have "c = ?f (dx, dy)" using c by simp
      ultimately show "c \<in> set (Neighbors ncols nrows cell)"
        unfolding N by (rule image_eqI[rotated])
    qed
  qed
qed

lemma Neighbors_inGrid:
  assumes "1 \<le> ncols" "inGrid ncols nrows cell" "c \<in> set (Neighbors ncols nrows cell)"
  shows "inGrid ncols nrows c"
  using assms set_Neighbors by blast
section \<open>Result normalisation\<close>

lemma uniqueLoop_remdups_adj:
  "uniqueLoop prev ws unique = unique @ tl (remdups_adj (prev # ws))"
proof (induction ws arbitrary: prev unique)
  case Nil
  then show ?case by simp
next
  case (Cons w ws)
  show ?case
  proof (cases "w = prev")
    case True
    then show ?thesis using Cons.IH[of prev unique] by simp
  next
    case False
    have "uniqueLoop prev (w # ws) unique = (unique @ [w]) @ tl (remdups_adj (w # ws))"
      using False Cons.IH[of w "unique @ [w]"] by simp
    also have "\<dots> = unique @ remdups_adj (w # ws)"
      by simp
    also have "\<dots> = unique @ tl (remdups_adj (prev # w # ws))"
      using False by simp
    finally show ?thesis .
  qed
qed

lemma uniqueSortedWords_eq:
  "uniqueSortedWords words = tl (remdups_adj ([] # sort words))"
  by (cases words) (simp_all add: uniqueSortedWords_def uniqueLoop_remdups_adj)

lemma strict_sorted_remdups_adj:
  "sorted (xs :: 'a :: linorder list) \<Longrightarrow> sorted_wrt (<) (remdups_adj xs)"
proof (induction xs rule: remdups_adj.induct)
  case (3 x y xs)
  show ?case
  proof (cases "x = y")
    case True
    then show ?thesis using 3 by simp
  next
    case False
    have "\<forall>z \<in> set (y # xs). x < z" using 3(3) False by auto
    then have "\<forall>z \<in> set (remdups_adj (y # xs)). x < z" by (simp only: remdups_adj_set)
    moreover have "sorted_wrt (<) (remdups_adj (y # xs))" using 3 False by simp
    ultimately show ?thesis using False by simp
  qed
qed simp_all

lemma strict_sorted_tl: "sorted_wrt (<) xs \<Longrightarrow> sorted_wrt (<) (tl xs)"
  by (cases xs) simp_all

lemma uniqueSortedWords_strict: "sorted_wrt (<) (uniqueSortedWords words)"
proof -
  have s: "sorted ([] # sort words)" by simp
  have "sorted_wrt (<) (remdups_adj ([] # sort words))"
    using s by (rule strict_sorted_remdups_adj)
  then show ?thesis unfolding uniqueSortedWords_eq by (rule strict_sorted_tl)
qed

lemma set_dropWhile_empty_sorted:
  "sorted (xs :: string list) \<Longrightarrow> set (dropWhile (\<lambda>y. y = []) xs) = set xs - {[]}"
proof (induction xs)
  case Nil
  then show ?case by simp
next
  case (Cons y ys)
  show ?case
  proof (cases "y = []")
    case True
    then show ?thesis using Cons by auto
  next
    case False
    have "\<forall>z \<in> set ys. y \<le> z" using Cons.prems by simp
    then have "[] \<notin> set ys" using False by auto
    then show ?thesis using False by auto
  qed
qed

lemma uniqueSortedWords_set: "set (uniqueSortedWords words) = set words - {[]}"
proof -
  have "uniqueSortedWords words = remdups_adj (dropWhile (\<lambda>y. y = []) (sort words))"
    unfolding uniqueSortedWords_eq by (simp add: remdups_adj_Cons')
  then have "set (uniqueSortedWords words) = set (dropWhile (\<lambda>y. y = []) (sort words))"
    by simp
  also have "\<dots> = set (sort words) - {[]}"
    by (rule set_dropWhile_empty_sorted) simp
  finally show ?thesis by simp
qed

lemma uniqueSortedWords_cong:
  assumes "set ws = set ws'"
  shows "uniqueSortedWords ws = uniqueSortedWords ws'"
proof -
  have "set (uniqueSortedWords ws) = set (uniqueSortedWords ws')"
    using assms by (simp add: uniqueSortedWords_set)
  moreover have "sorted (uniqueSortedWords ws) \<and> distinct (uniqueSortedWords ws)"
    using uniqueSortedWords_strict[of ws] strict_sorted_iff by blast
  moreover have "sorted (uniqueSortedWords ws') \<and> distinct (uniqueSortedWords ws')"
    using uniqueSortedWords_strict[of ws'] strict_sorted_iff by blast
  ultimately show ?thesis using sorted_distinct_set_unique by blast
qed
section \<open>The loop over the neighbours\<close>

lemma inSeen_iff: "inSeen vs curSq = (curSq \<in> set vs)"
  by (induction vs) auto

lemma completes_extendsTo: "completes board qn c \<Longrightarrow> extendsTo board qn c"
  by (auto simp: completes_def extendsTo_def live_def)

lemma pushed_Nil: "pushed board qn [] = []"
  by (simp add: pushed_def)

lemma pushed_Cons:
  "pushed board qn (c # cs) =
     (if extendsTo board qn c then [childState board qn c] else []) @ pushed board qn cs"
  by (simp add: pushed_def)

lemma reported_Nil: "reported board qn [] = []"
  by (simp add: reported_def)

lemma reported_Cons:
  "reported board qn (c # cs) =
     (if completes board qn c then [rehydrate (consumed (parentTrie qn) @ [board ! nat c])] else [])
     @ reported board qn cs"
  by (simp add: reported_def)

lemma rehydrate_snoc:
  "rehydrate (p @ [b]) =
     (case p @ [b] of [] \<Rightarrow> [] | k0 # k1 \<Rightarrow> if k0 = CHR ''q'' then ''qu'' @ k1 else p @ [b])"
  by (simp add: rehydrate_def)

text \<open>One neighbour: what the body of the loop does with it.\<close>

lemma adjLoop_Cons:
  "adjLoop board qn (c # rest) (q, words) =
     (if c \<in> set (seen qn) then adjLoop board qn rest (q, words)
      else if \<not> (0 \<le> c \<and> c < int (length board)) then Inl PanicIndexOutOfRange
      else adjLoop board qn rest
             (q @ (if extendsTo board qn c then [childState board qn c] else []),
              words @ (if completes board qn c
                       then [rehydrate (consumed (parentTrie qn) @ [board ! nat c])] else [])))"
proof (cases "c \<in> set (seen qn)")
  case True
  then show ?thesis by (simp add: inSeen_iff)
next
  case notseen: False
  show ?thesis
  proof (cases "0 \<le> c \<and> c < int (length board)")
    case False
    then show ?thesis using notseen by (auto simp: inSeen_iff index_def)
  next
    case inrange: True
    define b where "b = board ! nat c"
    define p where "p = consumed (parentTrie qn)"
    have ix: "index board c = Inr b" using inrange by (simp add: index_def b_def)
    show ?thesis
    proof (cases "extendsTo board qn c")
      case False
      then have nl: "\<not> (\<exists>k \<in> set (keys (tree (parentTrie qn))). prefix (p @ [b]) k)"
        using notseen by (simp add: extendsTo_def live_def b_def p_def)
      have nc: "\<not> completes board qn c" using False completes_extendsTo by blast
      have "Next (Copy (parentTrie qn)) b = (False, parentTrie qn)"
        using nl by (simp add: Next_def Copy_def p_def)
      then show ?thesis using notseen inrange ix False nc by (simp add: inSeen_iff)
    next
      case True
      then have l: "\<exists>k \<in> set (keys (tree (parentTrie qn))). prefix (p @ [b]) k"
        by (simp add: extendsTo_def live_def b_def p_def)
      let ?st = "(parentTrie qn)\<lparr>consumed := p @ [b]\<rparr>"
      have nx: "Next (Copy (parentTrie qn)) b = (True, ?st)"
        using l by (simp add: Next_def Copy_def p_def)
      have cs: "childState board qn c = \<lparr>parentSquare = c, parentTrie = ?st, seen = seen qn @ [c]\<rparr>"
        by (simp add: childState_def b_def p_def)
      obtain k0 k1 where k: "p @ [b] = k0 # k1" by (cases "p @ [b]") auto
      show ?thesis
      proof (cases "completes board qn c")
        case False
        then have "Item ?st = None"
          using notseen by (simp add: completes_def Item_def b_def p_def)
        then show ?thesis using notseen inrange ix True False nx cs
          by (simp add: inSeen_iff Let_def)
      next
        case cmp: True
        then have it: "Item ?st = Some (k0 # k1)"
          by (simp add: completes_def Item_def b_def p_def k[symmetric])
        have rh: "rehydrate (p @ [b]) = (if k0 = CHR ''q'' then ''qu'' @ k1 else k0 # k1)"
          by (simp add: rehydrate_def k)
        show ?thesis
          using notseen inrange ix True cmp nx cs it rh
          by (simp add: inSeen_iff Let_def b_def[symmetric] p_def[symmetric])
      qed
    qed
  qed
qed

text \<open>
  The whole loop: it fails exactly when a neighbour that has not been visited lies
  outside the board, and otherwise appends the new states and the new words.
\<close>

lemma adjLoop_closed:
  "adjLoop board qn adj (q, words) =
     (if \<forall>c \<in> set adj. c \<in> set (seen qn) \<or> (0 \<le> c \<and> c < int (length board))
      then Inr (q @ pushed board qn adj, words @ reported board qn adj)
      else Inl PanicIndexOutOfRange)"
proof (induction adj arbitrary: q words)
  case Nil
  show ?case by (simp add: pushed_Nil reported_Nil)
next
  case (Cons c rest)
  show ?case
  proof (cases "c \<in> set (seen qn)")
    case True
    then have "\<not> extendsTo board qn c" "\<not> completes board qn c"
      by (simp_all add: extendsTo_def completes_def)
    then show ?thesis
      using True Cons.IH[of q words] by (simp add: adjLoop_Cons pushed_Cons reported_Cons del: adjLoop.simps)
  next
    case notseen: False
    show ?thesis
    proof (cases "0 \<le> c \<and> c < int (length board)")
      case False
      then show ?thesis using notseen by (auto simp add: adjLoop_Cons simp del: adjLoop.simps)
    next
      case True
      show ?thesis
        using notseen True
          Cons.IH[of "q @ (if extendsTo board qn c then [childState board qn c] else [])"
            "words @ (if completes board qn c
                      then [rehydrate (consumed (parentTrie qn) @ [board ! nat c])] else [])"]
        by (simp add: adjLoop_Cons pushed_Cons reported_Cons del: adjLoop.simps)
    qed
  qed
qed

lemma adjLoop_Inr:
  assumes "adjLoop board qn adj (q, words) = Inr (q', words')"
  shows "q' = q @ pushed board qn adj \<and> words' = words @ reported board qn adj"
  using assms by (simp add: adjLoop_closed split: if_splits)

lemma rehydrate_nonempty: "key \<noteq> [] \<Longrightarrow> rehydrate key \<noteq> []"
  by (cases key) (simp_all add: rehydrate_def)

lemma reported_nonempty: "[] \<notin> set (reported board qn adj)"
proof
  assume "[] \<in> set (reported board qn adj)"
  then obtain c where "[] = rehydrate (consumed (parentTrie qn) @ [board ! nat c])"
    by (auto simp: reported_def)
  then show False
    using rehydrate_nonempty[of "consumed (parentTrie qn) @ [board ! nat c]"] by simp
qed

lemma seen_pushed:
  assumes "child \<in> set (pushed board qn adj)"
  shows "\<exists>c \<in> set adj. c \<notin> set (seen qn) \<and> parentSquare child = c
           \<and> seen child = seen qn @ [c] \<and> tree (parentTrie child) = tree (parentTrie qn)
           \<and> consumed (parentTrie child) = consumed (parentTrie qn) @ [board ! nat c]
           \<and> live (tree (parentTrie qn)) (consumed (parentTrie child))"
  using assms by (auto simp: pushed_def childState_def extendsTo_def)
section \<open>The loop that empties the queue\<close>

lemma drain_Nil: "drain s board [] words = Some (Inr words)"
  by (subst drain.simps) simp

lemma drain_Cons:
  "drain s board (qn # q1) words =
     (case calculateAdjacency (cols s) (rows s) (parentSquare qn) of
        Inl e \<Rightarrow> Some (Inl e)
      | Inr sqAdj \<Rightarrow>
          (case adjLoop board qn sqAdj (q1, words) of
             Inl e \<Rightarrow> Some (Inl e)
           | Inr (q2, words2) \<Rightarrow> drain s board q2 words2))"
  by (subst drain.simps) simp

text \<open>No run of the loops adds an empty word.\<close>

lemma drain_nonempty_words_aux:
  assumes "drain s board q words = Some r"
  shows "[] \<notin> set words \<longrightarrow> (\<forall>words'. r = Inr words' \<longrightarrow> [] \<notin> set words')"
proof -
  define P where "P = (\<lambda>(words :: string list) (r :: error + string list).
     [] \<notin> set words \<longrightarrow> (\<forall>words'. r = Inr words' \<longrightarrow> [] \<notin> set words'))"
  have "P words r"
    using assms
  proof (induction rule: drain.raw_induct[rotated 1, consumes 1])
    case (1 drain s board q words r)
    show ?case
    proof (cases q)
      case Nil
      then show ?thesis using 1(2) by (auto simp: P_def)
    next
      case (Cons qn q1)
      show ?thesis
      proof (cases "calculateAdjacency (cols s) (rows s) (parentSquare qn)")
        case (Inl e)
        then show ?thesis using 1(2) Cons by (auto simp: P_def)
      next
        case (Inr sqAdj)
        show ?thesis
        proof (cases "adjLoop board qn sqAdj (q1, words)")
          case (Inl e)
          then show ?thesis using 1(2) Cons Inr by (auto simp: P_def)
        next
          case r2: (Inr res)
          obtain q2 words2 where res: "res = (q2, words2)" by (cases res)
          have d: "drain s board q2 words2 = Some r" using 1(2) Cons Inr r2 res by simp
          have "words2 = words @ reported board qn sqAdj"
            using adjLoop_Inr[of board qn sqAdj q1 words q2 words2] r2 res by simp
          then have "[] \<notin> set words \<longrightarrow> [] \<notin> set words2"
            using reported_nonempty[of board qn sqAdj] by simp
          then show ?thesis using 1(1)[OF d] unfolding P_def by blast
        qed
      qed
    qed
  qed
  then show ?thesis by (simp add: P_def)
qed

lemma drain_nonempty_words:
  "drain s board q words = Some (Inr words') \<Longrightarrow> [] \<notin> set words \<Longrightarrow> [] \<notin> set words'"
  using drain_nonempty_words_aux by blast

lemma startLoop_nonempty_words:
  "startLoop s t board starts words = Some (Inr words') \<Longrightarrow> [] \<notin> set words \<Longrightarrow> [] \<notin> set words'"
proof (induction starts arbitrary: words)
  case Nil
  then show ?case by simp
next
  case (Cons initSq rest)
  from Cons.prems(1) obtain c where c: "index board initSq = Inr c"
    by (cases "index board initSq") auto
  let ?q = "[\<lparr>parentSquare = initSq, parentTrie = snd (Next (NewStepper t) c), seen = [initSq]\<rparr>]"
  from Cons.prems(1) c obtain words1 where d: "drain s board ?q words = Some (Inr words1)"
    and r: "startLoop s t board rest words1 = Some (Inr words')"
    by (auto simp: Let_def split: option.splits sum.splits)
  have "[] \<notin> set words1" using drain_nonempty_words[OF d Cons.prems(2)] .
  then show ?case using Cons.IH[OF r] by simp
qed
section \<open>The words that the continuations of a state spell\<close>

lemma extensions_Cons:
  "(c # cs) \<in> extensions ncols nrows sq sn \<longleftrightarrow>
     adjacentCells ncols sq c \<and> inGrid ncols nrows c \<and> c \<notin> set sn
     \<and> (cs = [] \<or> cs \<in> extensions ncols nrows c (sn @ [c]))"
proof (cases cs)
  case Nil
  then show ?thesis by (auto simp: extensions_def)
next
  case (Cons d ds)
  then show ?thesis by (auto simp: extensions_def)
qed

lemma extensions_nonempty: "cs \<in> extensions ncols nrows sq sn \<Longrightarrow> cs \<noteq> []"
  by (simp add: extensions_def)

lemma lettersOf_Cons: "lettersOf board (c # cs) = board ! nat c # lettersOf board cs"
  by (simp add: lettersOf_def)

lemma lettersOf_Nil: "lettersOf board [] = []"
  by (simp add: lettersOf_def)

lemma set_reported:
  "set (reported board qn adj) =
     {rehydrate (consumed (parentTrie qn) @ [board ! nat c]) | c.
        c \<in> set adj \<and> completes board qn c}"
  by (auto simp: reported_def)

lemma set_pushed:
  "set (pushed board qn adj) = {childState board qn c | c. c \<in> set adj \<and> extendsTo board qn c}"
  by (auto simp: pushed_def)

lemma found_childState:
  "found s t board (childState board qn c) =
     {rehydrate (consumed (parentTrie qn) @ board ! nat c # lettersOf board cs) | cs.
        cs \<in> extensions (cols s) (rows s) c (seen qn @ [c])
        \<and> consumed (parentTrie qn) @ board ! nat c # lettersOf board cs \<in> set (keys t)}"
  by (simp add: found_def childState_def)

text \<open>
  What a state contributes is what the loop over its neighbours reports, together with
  what the states contribute that the loop puts on the queue.
\<close>

lemma found_step:
  assumes adj: "set adj = {c. inGrid (cols s) (rows s) c \<and> adjacentCells (cols s) (parentSquare qn) c}"
    and t: "tree (parentTrie qn) = t"
  shows "found s t board qn
       = set (reported board qn adj) \<union> (\<Union>child \<in> set (pushed board qn adj). found s t board child)"
proof (rule set_eqI, rule iffI)
  fix w
  let ?p = "consumed (parentTrie qn)"
  assume "w \<in> found s t board qn"
  then obtain cs where cs: "cs \<in> extensions (cols s) (rows s) (parentSquare qn) (seen qn)"
    and k: "?p @ lettersOf board cs \<in> set (keys t)"
    and w: "w = rehydrate (?p @ lettersOf board cs)"
    by (auto simp: found_def)
  obtain c cs' where c: "cs = c # cs'" using extensions_nonempty[OF cs] by (cases cs) auto
  have e: "adjacentCells (cols s) (parentSquare qn) c" "inGrid (cols s) (rows s) c"
    "c \<notin> set (seen qn)" "cs' = [] \<or> cs' \<in> extensions (cols s) (rows s) c (seen qn @ [c])"
    using cs unfolding c extensions_Cons by simp_all
  have ca: "c \<in> set adj" using e adj by simp
  show "w \<in> set (reported board qn adj)
          \<union> (\<Union>child \<in> set (pushed board qn adj). found s t board child)"
  proof (cases "cs' = []")
    case True
    then have "completes board qn c"
      using k e t by (simp add: c completes_def lettersOf_Cons lettersOf_Nil)
    then have "w \<in> set (reported board qn adj)"
      unfolding set_reported using ca w True by (auto simp: c lettersOf_Cons lettersOf_Nil)
    then show ?thesis by simp
  next
    case False
    then have x: "cs' \<in> extensions (cols s) (rows s) c (seen qn @ [c])" using e by simp
    have "prefix (?p @ [board ! nat c]) (?p @ lettersOf board cs)"
      by (simp add: c lettersOf_Cons)
    then have "live t (?p @ [board ! nat c])" using k unfolding live_def by blast
    then have "extendsTo board qn c" using e t by (simp add: extendsTo_def)
    then have "childState board qn c \<in> set (pushed board qn adj)"
      unfolding set_pushed using ca by blast
    moreover have "w \<in> found s t board (childState board qn c)"
      unfolding found_childState using x k w by (auto simp: c lettersOf_Cons)
    ultimately show ?thesis by blast
  qed
next
  fix w
  let ?p = "consumed (parentTrie qn)"
  assume "w \<in> set (reported board qn adj)
          \<union> (\<Union>child \<in> set (pushed board qn adj). found s t board child)"
  then consider (r) "w \<in> set (reported board qn adj)"
    | (p) child where "child \<in> set (pushed board qn adj)" "w \<in> found s t board child"
    by blast
  then show "w \<in> found s t board qn"
  proof cases
    case r
    then obtain c where c: "c \<in> set adj" "completes board qn c"
      and w: "w = rehydrate (?p @ [board ! nat c])"
      unfolding set_reported by blast
    have "[c] \<in> extensions (cols s) (rows s) (parentSquare qn) (seen qn)"
      unfolding extensions_Cons using c adj by (simp add: completes_def)
    moreover have "?p @ lettersOf board [c] \<in> set (keys t)"
      using c t by (simp add: completes_def lettersOf_Cons lettersOf_Nil)
    moreover have "w = rehydrate (?p @ lettersOf board [c])"
      using w by (simp add: lettersOf_Cons lettersOf_Nil)
    ultimately show ?thesis unfolding found_def by blast
  next
    case p
    then obtain c where c: "c \<in> set adj" "extendsTo board qn c"
      and ch: "child = childState board qn c"
      unfolding set_pushed by blast
    from p(2) obtain cs where cs: "cs \<in> extensions (cols s) (rows s) c (seen qn @ [c])"
      and k: "?p @ board ! nat c # lettersOf board cs \<in> set (keys t)"
      and w: "w = rehydrate (?p @ board ! nat c # lettersOf board cs)"
      unfolding ch found_childState by blast
    have "c # cs \<in> extensions (cols s) (rows s) (parentSquare qn) (seen qn)"
      unfolding extensions_Cons using c adj cs by (simp add: extendsTo_def)
    moreover have "?p @ lettersOf board (c # cs) \<in> set (keys t)"
      using k by (simp add: lettersOf_Cons)
    moreover have "w = rehydrate (?p @ lettersOf board (c # cs))"
      using w by (simp add: lettersOf_Cons)
    ultimately show ?thesis unfolding found_def by blast
  qed
qed
section \<open>The queue empties\<close>

lemma queueWeight_append: "queueWeight n (a @ b) = queueWeight n a + queueWeight n b"
  by (simp add: queueWeight_def)

lemma queueWeight_Cons: "queueWeight n (qn # q) = weight n qn + queueWeight n q"
  by (simp add: queueWeight_def)

lemma weight_pos: "0 < weight n qn"
  by (simp add: weight_def)

lemma seen_length_less:
  assumes "validState s t qn" "inGrid (cols s) (rows s) c" "c \<notin> set (seen qn)"
  shows "length (seen qn) < nat (cols s * rows s)"
proof -
  have d: "distinct (c # seen qn)" using assms by (simp add: validState_def)
  have "set (c # seen qn) \<subseteq> {0 ..< cols s * rows s}"
    using assms by (auto simp: validState_def inGrid_def list_all_iff)
  then have "card (set (c # seen qn)) \<le> card {0 ..< cols s * rows s}"
    by (intro card_mono) simp_all
  then have "length (c # seen qn) \<le> nat (cols s * rows s)"
    using distinct_card[OF d] by simp
  then show ?thesis by simp
qed

lemma valid_childState:
  assumes "validState s t qn" "inGrid (cols s) (rows s) c" "c \<notin> set (seen qn)"
  shows "validState s t (childState board qn c)"
  using assms by (simp add: validState_def childState_def)

lemma weight_childState:
  "weight n (childState board qn c) = 9 ^ (n - Suc (length (seen qn)))"
  by (simp add: weight_def childState_def)

lemma queueWeight_pushed:
  "queueWeight n (pushed board qn adj)
     = length (filter (extendsTo board qn) adj) * 9 ^ (n - Suc (length (seen qn)))"
proof -
  have "map (weight n) (pushed board qn adj)
      = map (\<lambda>c. 9 ^ (n - Suc (length (seen qn)))) (filter (extendsTo board qn) adj)"
    by (simp add: pushed_def weight_childState comp_def)
  then show ?thesis by (simp add: queueWeight_def sum_list_triv)
qed

lemma queueWeight_pushed_less:
  assumes "length adj \<le> 8"
    and "\<And>c. c \<in> set adj \<Longrightarrow> extendsTo board qn c \<Longrightarrow> length (seen qn) < n"
  shows "queueWeight n (pushed board qn adj) < weight n qn"
proof (cases "filter (extendsTo board qn) adj = []")
  case True
  then show ?thesis by (simp add: queueWeight_pushed weight_pos)
next
  case False
  then obtain c where "c \<in> set adj" "extendsTo board qn c"
    by (metis filter_False)
  then have l: "length (seen qn) < n" using assms(2) by blast
  have "length (filter (extendsTo board qn) adj) \<le> 8"
    using assms(1) length_filter_le[of "extendsTo board qn" adj] by linarith
  then have "queueWeight n (pushed board qn adj) \<le> 8 * 9 ^ (n - Suc (length (seen qn)))"
    unfolding queueWeight_pushed by (rule mult_right_mono) simp
  also have "\<dots> < 9 * 9 ^ (n - Suc (length (seen qn)))" by simp
  also have "\<dots> = 9 ^ Suc (n - Suc (length (seen qn)))" by simp
  also have "Suc (n - Suc (length (seen qn))) = n - length (seen qn)" using l by simp
  finally show ?thesis by (simp add: weight_def)
qed

text \<open>
  On a board that fits, a queue of valid states empties without failure, and the words
  added are those that the continuations of its states spell.
\<close>

lemma drain_total:
  assumes f: "fits s board"
  shows "list_all (validState s t) q \<Longrightarrow>
         \<exists>ws. drain s board q words = Some (Inr (words @ ws))
               \<and> set ws = (\<Union>qn \<in> set q. found s t board qn)"
proof (induction "queueWeight (nat (cols s * rows s)) q" arbitrary: q words rule: less_induct)
  case less
  let ?n = "nat (cols s * rows s)"
  show ?case
  proof (cases q)
    case Nil
    then show ?thesis by (simp add: drain_Nil)
  next
    case (Cons qn q1)
    have vq: "validState s t qn" and v1: "list_all (validState s t) q1"
      using less.prems Cons by simp_all
    have g: "inGrid (cols s) (rows s) (parentSquare qn)" using vq by (simp add: validState_def)
    have tt: "tree (parentTrie qn) = t" using vq by (simp add: validState_def)
    have dims: "1 \<le> cols s" "1 \<le> rows s" "cols s * rows s < 2 ^ 63"
      "int (length board) = cols s * rows s"
      using f by (simp_all add: fits_def)
    define adj where "adj = Neighbors (cols s) (rows s) (parentSquare qn)"
    have ca: "calculateAdjacency (cols s) (rows s) (parentSquare qn) = Inr adj"
      unfolding adj_def using calculateAdjacency_Neighbors[OF dims(1,2,3)] g
      by (simp add: inGrid_def)
    have sa: "set adj = {c. inGrid (cols s) (rows s) c
                \<and> adjacentCells (cols s) (parentSquare qn) c}"
      unfolding adj_def using set_Neighbors[OF dims(1) g] .
    have inb: "\<forall>c \<in> set adj. c \<in> set (seen qn) \<or> (0 \<le> c \<and> c < int (length board))"
      using sa dims(4) by (auto simp: inGrid_def)
    have al: "adjLoop board qn adj (q1, words)
            = Inr (q1 @ pushed board qn adj, words @ reported board qn adj)"
      using inb by (simp add: adjLoop_closed)
    have step: "drain s board q words
              = drain s board (q1 @ pushed board qn adj) (words @ reported board qn adj)"
      by (simp add: Cons drain_Cons ca al)
    have vp: "list_all (validState s t) (pushed board qn adj)"
      unfolding list_all_iff set_pushed
      using sa vq valid_childState by (auto simp: extendsTo_def)
    have lt: "queueWeight ?n (pushed board qn adj) < weight ?n qn"
    proof (rule queueWeight_pushed_less)
      show "length adj \<le> 8" unfolding adj_def by (rule length_Neighbors)
    next
      fix c assume "c \<in> set adj" "extendsTo board qn c"
      then show "length (seen qn) < ?n"
        using seen_length_less[OF vq, of c] sa by (simp add: extendsTo_def)
    qed
    have "queueWeight ?n (q1 @ pushed board qn adj) < queueWeight ?n q"
      unfolding Cons queueWeight_append queueWeight_Cons using lt by simp
    moreover have "list_all (validState s t) (q1 @ pushed board qn adj)"
      using v1 vp by simp
    ultimately obtain ws where
      d: "drain s board (q1 @ pushed board qn adj) (words @ reported board qn adj)
            = Some (Inr ((words @ reported board qn adj) @ ws))"
      and sw: "set ws = (\<Union>qn \<in> set (q1 @ pushed board qn adj). found s t board qn)"
      using less.hyps[of "q1 @ pushed board qn adj" "words @ reported board qn adj"] by blast
    have fs: "found s t board qn = set (reported board qn adj)
                \<union> (\<Union>child \<in> set (pushed board qn adj). found s t board child)"
      using found_step[OF sa tt] .
    have "drain s board q words = Some (Inr (words @ (reported board qn adj @ ws)))"
      using step d by simp
    moreover have "set (reported board qn adj @ ws) = (\<Union>qn \<in> set q. found s t board qn)"
      unfolding Cons using sw fs by auto
    ultimately show ?thesis by blast
  qed
qed
section \<open>The search from the starting squares\<close>

lemma Next_snd:
  "snd (Next st c) = (if live (tree st) (consumed st @ [c])
                      then st\<lparr>consumed := consumed st @ [c]\<rparr> else st)"
  by (simp add: Next_def live_def)

lemma initState_simps:
  "parentSquare (initState t board i) = i"
  "seen (initState t board i) = [i]"
  "tree (parentTrie (initState t board i)) = t"
  "consumed (parentTrie (initState t board i))
     = (if live t [board ! nat i] then [board ! nat i] else [])"
  by (simp_all add: initState_def Next_snd NewStepper_def)

lemma valid_initState:
  "inGrid (cols s) (rows s) i \<Longrightarrow> validState s t (initState t board i)"
  by (simp add: validState_def initState_simps)

lemma startLoop_total:
  assumes f: "fits s board"
  shows "list_all (inGrid (cols s) (rows s)) starts \<Longrightarrow>
         \<exists>ws. startLoop s t board starts words = Some (Inr (words @ ws))
               \<and> set ws = (\<Union>i \<in> set starts. found s t board (initState t board i))"
proof (induction starts arbitrary: words)
  case Nil
  then show ?case by simp
next
  case (Cons i rest)
  have g: "inGrid (cols s) (rows s) i" and r: "list_all (inGrid (cols s) (rows s)) rest"
    using Cons.prems by simp_all
  have ix: "index board i = Inr (board ! nat i)"
    using g f by (simp add: index_def inGrid_def fits_def)
  have q: "[\<lparr>parentSquare = i, parentTrie = snd (Next (NewStepper t) (board ! nat i)),
              seen = [i]\<rparr>] = [initState t board i]"
    by (simp add: initState_def)
  obtain ws1 where d: "drain s board [initState t board i] words = Some (Inr (words @ ws1))"
    and s1: "set ws1 = found s t board (initState t board i)"
    using drain_total[OF f, of t "[initState t board i]" words] valid_initState[OF g] by auto
  obtain ws2 where l: "startLoop s t board rest (words @ ws1) = Some (Inr ((words @ ws1) @ ws2))"
    and s2: "set ws2 = (\<Union>i \<in> set rest. found s t board (initState t board i))"
    using Cons.IH[OF r, of "words @ ws1"] by blast
  have "startLoop s t board (i # rest) words = Some (Inr (words @ (ws1 @ ws2)))"
    using ix d l by (simp add: q Let_def)
  moreover have "set (ws1 @ ws2) = (\<Union>i \<in> set (i # rest). found s t board (initState t board i))"
    using s1 s2 by auto
  ultimately show ?case by blast
qed

lemma searchFrom_total:
  assumes "fits s board" "list_all (inGrid (cols s) (rows s)) starts"
  shows "\<exists>raw. searchFrom s t board starts = Some (Inr (uniqueSortedWords raw))
               \<and> startLoop s t board starts [] = Some (Inr raw)
               \<and> set raw = (\<Union>i \<in> set starts. found s t board (initState t board i))"
proof -
  obtain ws where "startLoop s t board starts [] = Some (Inr ([] @ ws))"
    and "set ws = (\<Union>i \<in> set starts. found s t board (initState t board i))"
    using startLoop_total[OF assms, of t "[]"] by blast
  then show ?thesis by (auto simp: searchFrom_def)
qed

section \<open>The words found are the words that simple paths spell\<close>

lemma successively_tail: "successively P (x # xs) \<Longrightarrow> successively P xs"
  by (cases xs) simp_all

lemma rehydrate_length: "2 \<le> length key \<Longrightarrow> rehydrate key \<noteq> []"
  by (cases key) (simp_all add: rehydrate_def)

lemma found_initState_solutions:
  assumes keys2: "\<forall>k \<in> set (keys t). 2 \<le> length k"
    and S: "\<forall>i \<in> S. inGrid (cols s) (rows s) i"
    and all: "\<forall>i. inGrid (cols s) (rows s) i \<and> live t [board ! nat i] \<longrightarrow> i \<in> S"
  shows "(\<Union>i \<in> S. found s t board (initState t board i)) = solutions s t board"
proof (rule set_eqI, rule iffI)
  fix w
  assume "w \<in> (\<Union>i \<in> S. found s t board (initState t board i))"
  then obtain i where i: "i \<in> S" and w: "w \<in> found s t board (initState t board i)" by blast
  let ?p = "if live t [board ! nat i] then [board ! nat i] else []"
  from w obtain cs where cs: "cs \<in> extensions (cols s) (rows s) i [i]"
    and k: "?p @ lettersOf board cs \<in> set (keys t)"
    and we: "w = rehydrate (?p @ lettersOf board cs)"
    unfolding found_def initState_simps by blast
  have e: "cs \<noteq> []" "successively (adjacentCells (cols s)) (i # cs)" "distinct cs"
    "i \<notin> set cs" "list_all (inGrid (cols s) (rows s)) cs"
    using cs by (auto simp: extensions_def)
  have gi: "inGrid (cols s) (rows s) i" using i S by blast
  show "w \<in> solutions s t board"
  proof (cases "live t [board ! nat i]")
    case True
    have "simplePath (cols s) (rows s) (i # cs)"
      using e gi by (simp add: simplePath_def)
    moreover have "lettersOf board (i # cs) = ?p @ lettersOf board cs"
      using True by (simp add: lettersOf_Cons)
    ultimately have "spellable (cols s) (rows s) board (?p @ lettersOf board cs)"
      unfolding spellable_def by blast
    then show ?thesis unfolding solutions_def using k we by blast
  next
    case False
    have "simplePath (cols s) (rows s) cs"
      using e successively_tail[OF e(2)] by (simp add: simplePath_def)
    moreover have "lettersOf board cs = ?p @ lettersOf board cs"
      using False by simp
    ultimately have "spellable (cols s) (rows s) board (?p @ lettersOf board cs)"
      unfolding spellable_def by metis
    then show ?thesis unfolding solutions_def using k we by blast
  qed
next
  fix w
  assume "w \<in> solutions s t board"
  then obtain k p where k: "k \<in> set (keys t)" and p: "simplePath (cols s) (rows s) p"
    and l: "lettersOf board p = k" and w: "w = rehydrate k"
    unfolding solutions_def spellable_def by blast
  have "2 \<le> length p" using keys2 k l by (auto simp: lettersOf_def)
  then obtain i cs where ics: "p = i # cs" "cs \<noteq> []"
    by (cases p) (auto simp: Suc_le_eq)
  have sp: "distinct (i # cs)" "list_all (inGrid (cols s) (rows s)) (i # cs)"
    "successively (adjacentCells (cols s)) (i # cs)"
    using p unfolding ics simplePath_def by simp_all
  have kk: "k = board ! nat i # lettersOf board cs" using l by (simp add: ics lettersOf_Cons)
  have "prefix [board ! nat i] k" unfolding kk by simp
  then have lv: "live t [board ! nat i]" using k unfolding live_def by blast
  have gi: "inGrid (cols s) (rows s) i" using sp by simp
  then have iS: "i \<in> S" using lv all by blast
  have "cs \<in> extensions (cols s) (rows s) i [i]"
    using ics sp by (auto simp: extensions_def)
  moreover have "[board ! nat i] @ lettersOf board cs \<in> set (keys t)" using k kk by simp
  moreover have "w = rehydrate ([board ! nat i] @ lettersOf board cs)" using w kk by simp
  ultimately have "w \<in> found s t board (initState t board i)"
    unfolding found_def initState_simps using lv by auto
  then show "w \<in> (\<Union>i \<in> S. found s t board (initState t board i))" using iS by blast
qed

lemma solutions_nonempty:
  assumes "\<forall>k \<in> set (keys t). 2 \<le> length k"
  shows "[] \<notin> solutions s t board"
  using assms rehydrate_length unfolding solutions_def by (metis (mono_tags, lifting) imageE mem_Collect_eq)

lemma set_starts: "set (map int [0..<n]) = {i. 0 \<le> i \<and> i < int n}"
proof (rule set_eqI, rule iffI)
  fix i assume "i \<in> set (map int [0..<n])"
  then show "i \<in> {i. 0 \<le> i \<and> i < int n}" by auto
next
  fix i :: int assume "i \<in> {i. 0 \<le> i \<and> i < int n}"
  then have "nat i \<in> set [0..<n]" "int (nat i) = i" by auto
  then show "i \<in> set (map int [0..<n])" by (metis image_eqI set_map)
qed

text \<open>
  The search over a board that fits, from a set of starting squares that has every
  square whose letter begins a key: it returns, without failure, the strictly
  increasing list of the words that simple paths spell.
\<close>

lemma searchFrom_solutions:
  assumes f: "fits s board"
    and keys2: "\<forall>k \<in> set (keys t). 2 \<le> length k"
    and gs: "list_all (inGrid (cols s) (rows s)) starts"
    and all: "\<forall>i. inGrid (cols s) (rows s) i \<and> live t [board ! nat i] \<longrightarrow> i \<in> set starts"
  shows "\<exists>ws. searchFrom s t board starts = Some (Inr ws) \<and> sorted_wrt (<) ws
              \<and> set ws = solutions s t board"
proof -
  obtain raw where r: "searchFrom s t board starts = Some (Inr (uniqueSortedWords raw))"
    and sr: "set raw = (\<Union>i \<in> set starts. found s t board (initState t board i))"
    using searchFrom_total[OF f gs, of t] by blast
  have "set raw = solutions s t board"
    unfolding sr using found_initState_solutions[OF keys2 _ all] gs by (simp add: list_all_iff)
  then have "set (uniqueSortedWords raw) = solutions s t board"
    using solutions_nonempty[OF keys2, of s board] by (simp add: uniqueSortedWords_set)
  then show ?thesis using r uniqueSortedWords_strict by blast
qed

lemma length_ToLower: "length (ToLower grid) = length grid"
  by (simp add: ToLower_def)

lemma BoardSize_fits:
  assumes "1 \<le> cols s" "1 \<le> rows s" "cols s * rows s < 2 ^ 63"
  shows "BoardSize s = cols s * rows s"
proof -
  have "0 \<le> cols s * rows s" using assms by simp
  then have "inInt64 (cols s * rows s)" using assms(3) by (simp add: inInt64_def)
  then show ?thesis by (simp add: BoardSize_def mul64_id)
qed

lemma starts_inGrid:
  assumes "fits s board"
  shows "list_all (inGrid (cols s) (rows s)) (map int [0..<length board])"
    and "\<forall>i. inGrid (cols s) (rows s) i \<longrightarrow> i \<in> set (map int [0..<length board])"
  using assms unfolding list_all_iff set_starts by (simp_all add: fits_def inGrid_def)
section \<open>Building the dictionary\<close>

lemma keys_Put: "set (keys (Put t key)) = insert key (set (keys t))"
  by (auto simp: Put_def)

lemma distinct_Put: "distinct (keys t) \<Longrightarrow> distinct (keys (Put t key))"
  by (simp add: Put_def)

text \<open>One word of the list, with the minimal length 3 that \<open>New\<close> passes.\<close>

lemma scanWords_Cons3:
  "scanWords (word # rest) maxLen 3 t
     = scanWords rest maxLen 3 (if accepted maxLen word then Put t (collapse word) else t)"
proof (cases "int (length word) > maxLen \<or> int (length word) < 3")
  case True
  then have "\<not> accepted maxLen word" by (auto simp: accepted_def)
  then show ?thesis using True by simp
next
  case False
  then have "3 \<le> length word" by simp
  then obtain c0 c1 w2 where w: "word = c0 # c1 # w2"
    by (cases word; cases "tl word") auto
  have a: "accepted maxLen word \<longleftrightarrow> CHR ''a'' \<le> c0 \<and> (c0 = CHR ''q'' \<longrightarrow> c1 = CHR ''u'')"
    using False by (cases w2) (auto simp: accepted_def w)
  have c: "collapse word = (if c0 = CHR ''q'' then ''q'' @ w2 else word)"
    by (simp add: collapse_def w)
  show ?thesis
  proof (cases "c0 < CHR ''a''")
    case True
    then have "\<not> CHR ''a'' \<le> c0" by (simp add: not_le)
    then have "\<not> accepted maxLen word" using a by simp
    then show ?thesis using False True by (simp add: w)
  next
    case ge: False
    then have ge': "CHR ''a'' \<le> c0" by simp
    show ?thesis
    proof (cases "c0 = CHR ''q''")
      case True
      then show ?thesis using False ge a by (auto simp: w collapse_def)
    next
      case nq: False
      then show ?thesis using False ge ge' a by (auto simp: w collapse_def)
    qed
  qed
qed

lemma scanWords_keys:
  "\<exists>t'. scanWords lines maxLen 3 t = Inr t'
        \<and> set (keys t') = set (keys t) \<union> collapse ` {w \<in> set lines. accepted maxLen w}
        \<and> (distinct (keys t) \<longrightarrow> distinct (keys t'))"
proof (induction lines arbitrary: t)
  case Nil
  then show ?case by simp
next
  case (Cons word rest)
  let ?t = "if accepted maxLen word then Put t (collapse word) else t"
  obtain t' where t': "scanWords rest maxLen 3 ?t = Inr t'"
    and k: "set (keys t') = set (keys ?t) \<union> collapse ` {w \<in> set rest. accepted maxLen w}"
    and d: "distinct (keys ?t) \<longrightarrow> distinct (keys t')"
    using Cons.IH[of ?t] by blast
  have "scanWords (word # rest) maxLen 3 t = Inr t'"
    unfolding scanWords_Cons3 using t' .
  moreover have "set (keys t') = set (keys t) \<union> collapse ` {w \<in> set (word # rest). accepted maxLen w}"
    using k by (auto simp: keys_Put)
  moreover have "distinct (keys t) \<longrightarrow> distinct (keys t')"
    using d by (simp add: distinct_Put)
  ultimately show ?case by blast
qed

lemma loadWords_keys:
  "\<exists>t. loadWords (Inr lines) maxLen 3 = Inr t \<and> distinct (keys t)
       \<and> set (keys t) = collapse ` {w \<in> set lines. accepted maxLen w}"
  using scanWords_keys[of lines maxLen "Tree []"] by (auto simp: loadWords_def)

lemma collapse_length: "accepted maxLen word \<Longrightarrow> 2 \<le> length (collapse word)"
  by (auto simp: accepted_def collapse_def)


text \<open>What \<open>New\<close> returns when it returns a solver.\<close>

lemma New_Inr:
  assumes "New xlen ylen source = Inr s"
  shows "cols s = xlen \<and> rows s = ylen \<and> 1 \<le> xlen \<and> 1 \<le> ylen
       \<and> (\<exists>lines t. source = Inr lines \<and> rt s = Some t
             \<and> loadWords (Inr lines) (mul64 xlen ylen) 3 = Inr t)"
proof -
  have d: "\<not> (xlen < 1 \<or> ylen < 1)" using assms by (auto simp: New_def)
  obtain lines where l: "source = Inr lines"
    using assms d by (cases source) (auto simp: New_def loadWords_def)
  obtain t where t: "loadWords (Inr lines) (mul64 xlen ylen) 3 = Inr t"
    using loadWords_keys by blast
  have "s = \<lparr>cols = xlen, rows = ylen, rt = Some t\<rparr>"
    using assms d l t by (simp add: New_def)
  then show ?thesis using d l t by auto
qed

lemma New_keys:
  assumes "New xlen ylen source = Inr s"
  shows "\<exists>t. rt s = Some t \<and> (\<forall>k \<in> set (keys t). 2 \<le> length k)"
proof -
  obtain lines t where l: "rt s = Some t" "loadWords (Inr lines) (mul64 xlen ylen) 3 = Inr t"
    using New_Inr[OF assms] by blast
  have "set (keys t) = collapse ` {w \<in> set lines. accepted (mul64 xlen ylen) w}"
    using loadWords_keys[of lines "mul64 xlen ylen"] l(2) by auto
  then have "\<forall>k \<in> set (keys t). 2 \<le> length k"
    using collapse_length by auto
  then show ?thesis using l(1) by blast
qed

text \<open>
  C5, as amended. At dictionary build time a word of the list is inserted if and only
  if it survives the filters: a word longer than \<open>maxLen\<close> bytes or shorter than 3 is
  skipped; a word whose first byte is below \<open>a\<close> (so every word that begins with a
  capital letter or a digit) is skipped; a word whose first byte is \<open>q\<close> is skipped
  unless its second byte is \<open>u\<close>, and a surviving such word has its leading \<open>qu\<close>
  collapsed to \<open>q\<close> before insertion; every other word is inserted unchanged. A word
  whose first byte is above \<open>z\<close> is inserted as well.
\<close>

theorem loadWords_inserts_accepted_words:
  "\<exists>t. loadWords (Inr lines) maxLen 3 = Inr t
       \<and> distinct (keys t)
       \<and> set (keys t) = collapse ` {w \<in> set lines. accepted maxLen w}
       \<and> (\<forall>w. accepted maxLen w \<longleftrightarrow>
               3 \<le> length w \<and> int (length w) \<le> maxLen \<and> \<not> hd w < CHR ''a''
               \<and> (hd w = CHR ''q'' \<longrightarrow> hd (tl w) = CHR ''u''))
       \<and> (\<forall>w. accepted maxLen w \<longrightarrow>
               (hd w = CHR ''q'' \<longrightarrow> collapse w = ''q'' @ drop 2 w)
             \<and> (hd w \<noteq> CHR ''q'' \<longrightarrow> collapse w = w))"
proof -
  obtain t where t: "loadWords (Inr lines) maxLen 3 = Inr t" "distinct (keys t)"
    "set (keys t) = collapse ` {w \<in> set lines. accepted maxLen w}"
    using loadWords_keys by blast
  have a: "\<forall>w. accepted maxLen w \<longleftrightarrow>
               3 \<le> length w \<and> int (length w) \<le> maxLen \<and> \<not> hd w < CHR ''a''
               \<and> (hd w = CHR ''q'' \<longrightarrow> hd (tl w) = CHR ''u'')"
  proof
    fix w :: string
    show "accepted maxLen w \<longleftrightarrow>
               3 \<le> length w \<and> int (length w) \<le> maxLen \<and> \<not> hd w < CHR ''a''
               \<and> (hd w = CHR ''q'' \<longrightarrow> hd (tl w) = CHR ''u'')"
    proof (cases "3 \<le> length w")
      case True
      then obtain c0 c1 w2 where w: "w = c0 # c1 # w2"
        by (cases w; cases "tl w") auto
      show ?thesis by (simp add: accepted_def w not_less)
    next
      case False
      then show ?thesis by (simp add: accepted_def)
    qed
  qed
  have c: "\<forall>w. accepted maxLen w \<longrightarrow>
               (hd w = CHR ''q'' \<longrightarrow> collapse w = ''q'' @ drop 2 w)
             \<and> (hd w \<noteq> CHR ''q'' \<longrightarrow> collapse w = w)"
    by (simp add: collapse_def)
  from t a c show ?thesis by blast
qed

theorem loadWords_inserts_accepted_words_witness:
  "loadWords (Inr [''cat'', ''Cat'', ''quad'', ''qat'', ''ta'', ''tacos'', ''{ab'', ''42nd'', ''cat'']) 4 3
     = Inr (Tree [''cat'', ''qad'', ''{ab''])
   \<and> accepted 4 ''quad'' \<and> collapse ''quad'' = ''qad'' \<and> accepted 4 ''cat'' \<and> collapse ''cat'' = ''cat''
   \<and> \<not> accepted 4 ''Cat'' \<and> \<not> accepted 4 ''qat'' \<and> \<not> accepted 4 ''ta'' \<and> \<not> accepted 4 ''tacos''
   \<and> \<not> accepted 4 ''42nd'' \<and> accepted 4 ''{ab''"
proof -
  let ?lines = "[''cat'', ''Cat'', ''quad'', ''qat'', ''ta'', ''tacos'', ''{ab'', ''42nd'', ''cat'']"
  have l: "loadWords (Inr ?lines) 4 3 = Inr (Tree [''cat'', ''qad'', ''{ab''])"
    by (simp add: loadWords_def Put_def)
  have a: "\<forall>w. accepted 4 w \<longleftrightarrow>
               3 \<le> length w \<and> int (length w) \<le> 4 \<and> \<not> hd w < CHR ''a''
               \<and> (hd w = CHR ''q'' \<longrightarrow> hd (tl w) = CHR ''u'')"
    and c: "\<forall>w. accepted 4 w \<longrightarrow>
               (hd w = CHR ''q'' \<longrightarrow> collapse w = ''q'' @ drop 2 w)
             \<and> (hd w \<noteq> CHR ''q'' \<longrightarrow> collapse w = w)"
    using loadWords_inserts_accepted_words[of ?lines 4] by blast+
  have acc: "accepted 4 ''quad''" "accepted 4 ''cat''" "\<not> accepted 4 ''Cat''" "\<not> accepted 4 ''qat''"
    "\<not> accepted 4 ''ta''" "\<not> accepted 4 ''tacos''" "\<not> accepted 4 ''42nd''" "accepted 4 ''{ab''"
    unfolding a[rule_format] by simp_all
  have col: "collapse ''quad'' = ''qad''" "collapse ''cat'' = ''cat''"
    using c[rule_format, OF acc(1)] c[rule_format, OF acc(2)] by simp_all
  from l acc col show ?thesis by simp
qed

text \<open>
  C5 as stated fails for a word whose first byte is not a lower-case letter but lies
  above them: the word \<open>{ab\<close> is inserted, and so is a word that begins with the
  first byte of an accented letter in UTF-8.
\<close>

theorem loadWords_inserts_word_beyond_letters:
  "loadWords (Inr [''{ab'']) 16 3 = Inr (Tree [''{ab''])
   \<and> \<not> (CHR ''a'' \<le> CHR ''{'' \<and> CHR ''{'' \<le> CHR ''z'')
   \<and> loadWords (Inr [[CHR 0xC3, CHR 0xA9, CHR ''t'', CHR 0xC3, CHR 0xA9]]) 16 3
       = Inr (Tree [[CHR 0xC3, CHR 0xA9, CHR ''t'', CHR 0xC3, CHR 0xA9]])
   \<and> \<not> (CHR ''a'' \<le> CHR 0xC3 \<and> CHR 0xC3 \<le> CHR ''z'')"
  by (simp add: loadWords_def Put_def)
section \<open>Solve\<close>

lemma fits_ToLower:
  assumes "1 \<le> cols s" "1 \<le> rows s" "cols s * rows s < 2 ^ 63"
    "int (length grid) = cols s * rows s"
  shows "fits s (ToLower grid)"
  using assms by (simp add: fits_def length_ToLower)

lemma Solve_exact:
  assumes "rt s = Some t" "1 \<le> cols s" "1 \<le> rows s" "cols s * rows s < 2 ^ 63"
    "int (length grid) = cols s * rows s"
  shows "Solve s grid = searchFrom s t (ToLower grid) (map int [0..<length (ToLower grid)])"
  using assms BoardSize_fits[OF assms(2,3,4)] by (simp add: Solve_def Let_def)



lemma Solve_returns:
  assumes "rt s = Some t" "1 \<le> cols s" "1 \<le> rows s" "cols s * rows s < 2 ^ 63"
    "int (length grid) = cols s * rows s"
  shows "\<exists>ws. Solve s grid = Some (Inr ws)"
proof -
  have f: "fits s (ToLower grid)" using fits_ToLower[OF assms(2-5)] .
  show ?thesis
    unfolding Solve_exact[OF assms]
    using searchFrom_total[OF f starts_inGrid(1)[OF f], of t] by blast
qed


lemma SolveOmitting_solutions:
  assumes "rt s = Some t" "1 \<le> cols s" "1 \<le> rows s" "cols s * rows s < 2 ^ 63"
    "int (length grid) = cols s * rows s" "\<forall>k \<in> set (keys t). 2 \<le> length k"
    "\<not> live t [ToLower grid ! nat cell]"
  shows "\<exists>ws. SolveOmitting s grid cell = Some (Inr ws) \<and> sorted_wrt (<) ws
              \<and> set ws = solutions s t (ToLower grid)"
proof -
  let ?board = "ToLower grid"
  let ?starts = "filter (\<lambda>i. i \<noteq> cell) (map int [0..<length ?board])"
  have f: "fits s ?board" using fits_ToLower[OF assms(2-5)] .
  have e: "SolveOmitting s grid cell = searchFrom s t ?board ?starts"
    using assms(1,5) BoardSize_fits[OF assms(2,3,4)] by (simp add: SolveOmitting_def Let_def)
  have g: "list_all (inGrid (cols s) (rows s)) ?starts"
    using starts_inGrid(1)[OF f] unfolding list_all_iff by auto
  have a: "\<forall>i. inGrid (cols s) (rows s) i \<and> live t [?board ! nat i] \<longrightarrow> i \<in> set ?starts"
    using starts_inGrid(2)[OF f] assms(7) by auto
  show ?thesis unfolding e using searchFrom_solutions[OF f assms(6) g a] .
qed

lemma strictly_sorted_unique:
  fixes xs ys :: "string list"
  assumes "sorted_wrt (<) xs" "sorted_wrt (<) ys" "set xs = set ys"
  shows "xs = ys"
proof -
  have "sorted xs \<and> distinct xs" "sorted ys \<and> distinct ys"
    using assms strict_sorted_iff by blast+
  then show ?thesis using assms(3) sorted_distinct_set_unique by blast
qed

lemma Solve_Inr_searchFrom:
  assumes "Solve s grid = Some (Inr ws)"
  shows "\<exists>t. rt s = Some t
           \<and> searchFrom s t (ToLower grid) (map int [0..<length (ToLower grid)]) = Some (Inr ws)"
  using assms by (auto simp: Solve_def Let_def split: option.splits if_splits)

lemma searchFrom_Inr:
  assumes "searchFrom s t board starts = Some (Inr ws)"
  shows "\<exists>raw. startLoop s t board starts [] = Some (Inr raw) \<and> ws = uniqueSortedWords raw
               \<and> [] \<notin> set raw"
proof -
  obtain raw where r: "startLoop s t board starts [] = Some (Inr raw)" "ws = uniqueSortedWords raw"
    using assms by (auto simp: searchFrom_def split: option.splits sum.splits)
  have "[] \<notin> set raw" using startLoop_nonempty_words[OF r(1)] by simp
  then show ?thesis using r by blast
qed
section \<open>The claims about Solve\<close>

lemma New_dims:
  assumes "New xlen ylen (Inr lines) = Inr s" "xlen * ylen < 2 ^ 63"
  shows "\<exists>t. rt s = Some t \<and> cols s = xlen \<and> rows s = ylen \<and> 1 \<le> cols s \<and> 1 \<le> rows s
           \<and> cols s * rows s < 2 ^ 63 \<and> distinct (keys t)
           \<and> set (keys t) = collapse ` {w \<in> set lines. accepted (xlen * ylen) w}
           \<and> (\<forall>k \<in> set (keys t). 2 \<le> length k)"
proof -
  have n: "cols s = xlen" "rows s = ylen" "1 \<le> xlen" "1 \<le> ylen"
    using New_Inr[OF assms(1)] by simp_all
  obtain lines' t where t: "Inr lines = (Inr lines' :: error + string list)" "rt s = Some t"
    "loadWords (Inr lines') (mul64 xlen ylen) 3 = Inr t"
    using New_Inr[OF assms(1)] by blast
  have l: "lines' = lines" using t(1) by simp
  have "0 \<le> xlen * ylen" using n by simp
  then have m: "mul64 xlen ylen = xlen * ylen"
    using assms(2) by (intro mul64_id) (simp add: inInt64_def)
  have k: "distinct (keys t)" "set (keys t) = collapse ` {w \<in> set lines. accepted (xlen * ylen) w}"
    using loadWords_keys[of lines "xlen * ylen"] t(3) unfolding l m by auto
  then have "\<forall>k \<in> set (keys t). 2 \<le> length k" using collapse_length by auto
  then show ?thesis using n t(2) k assms(2) by simp
qed


text \<open>
  C2. Whenever \<open>Solve\<close> returns words (for an ASCII grid), the list is strictly
  increasing in the bytewise lexicographic order, so it has no inversion and no
  duplicate; it is the normalisation of the words that the search has collected, none
  of which is empty, and it has the same elements as that collection. The same holds
  for the search on any board. The normaliser returns a strictly increasing list of the
  non-empty words it is given, and the empty list on the empty list.
\<close>

theorem Solve_result_strictly_increasing:
  "(isASCII grid \<and> Solve s grid = Some (Inr ws) \<longrightarrow>
      sorted_wrt (<) ws \<and> distinct ws)
   \<and> (searchFrom s t board starts = Some (Inr ws') \<longrightarrow>
        sorted_wrt (<) ws' \<and> distinct ws'
        \<and> (\<exists>raw. startLoop s t board starts [] = Some (Inr raw) \<and> [] \<notin> set raw
               \<and> ws' = uniqueSortedWords raw \<and> set ws' = set raw))
   \<and> sorted_wrt (<) (uniqueSortedWords words)
   \<and> set (uniqueSortedWords words) = set words - {[]}
   \<and> uniqueSortedWords [] = []"
proof -
  have st: "\<And>raw. sorted_wrt (<) (uniqueSortedWords raw) \<and> distinct (uniqueSortedWords raw)"
    using uniqueSortedWords_strict strict_sorted_iff by blast
  have a: "isASCII grid \<and> Solve s grid = Some (Inr ws) \<longrightarrow> sorted_wrt (<) ws \<and> distinct ws"
  proof
    assume "isASCII grid \<and> Solve s grid = Some (Inr ws)"
    then obtain t' where "searchFrom s t' (ToLower grid) (map int [0..<length (ToLower grid)])
        = Some (Inr ws)"
      using Solve_Inr_searchFrom by blast
    then obtain raw where "ws = uniqueSortedWords raw" using searchFrom_Inr by blast
    then show "sorted_wrt (<) ws \<and> distinct ws" using st by simp
  qed
  have b: "searchFrom s t board starts = Some (Inr ws') \<longrightarrow>
        sorted_wrt (<) ws' \<and> distinct ws'
        \<and> (\<exists>raw. startLoop s t board starts [] = Some (Inr raw) \<and> [] \<notin> set raw
               \<and> ws' = uniqueSortedWords raw \<and> set ws' = set raw)"
  proof
    assume "searchFrom s t board starts = Some (Inr ws')"
    then obtain raw where r: "startLoop s t board starts [] = Some (Inr raw)"
      "ws' = uniqueSortedWords raw" "[] \<notin> set raw"
      using searchFrom_Inr by blast
    have "set ws' = set raw" using r(2,3) by (simp add: uniqueSortedWords_set)
    then show "sorted_wrt (<) ws' \<and> distinct ws'
        \<and> (\<exists>raw. startLoop s t board starts [] = Some (Inr raw) \<and> [] \<notin> set raw
               \<and> ws' = uniqueSortedWords raw \<and> set ws' = set raw)"
      using r st by blast
  qed
  have c: "uniqueSortedWords [] = []" by (simp add: uniqueSortedWords_def)
  from a b c uniqueSortedWords_strict uniqueSortedWords_set show ?thesis by blast
qed

theorem Solve_result_strictly_increasing_witness:
  "isASCII ''qAud''
   \<and> Solve \<lparr>cols = 2, rows = 2, rt = Some (Tree [''uad'', ''qad'', ''dau''])\<rparr> ''qAud''
       = Some (Inr [''dau'', ''quad'', ''uad''])
   \<and> sorted_wrt (<) [''dau'', ''quad'', ''uad''] \<and> distinct [''dau'', ''quad'', ''uad'']"
proof -
  let ?s = "\<lparr>cols = 2, rows = 2, rt = Some (Tree [''uad'', ''qad'', ''dau''])\<rparr>"
  have a: "isASCII ''qAud''" by (simp add: isASCII_def)
  have v: "Solve ?s ''qAud'' = Some (Inr [''dau'', ''quad'', ''uad''])" by code_simp
  have "isASCII ''qAud'' \<and> Solve ?s ''qAud'' = Some (Inr [''dau'', ''quad'', ''uad'']) \<longrightarrow>
      sorted_wrt (<) [''dau'', ''quad'', ''uad''] \<and> distinct [''dau'', ''quad'', ''uad'']"
    using Solve_result_strictly_increasing[of "''qAud''" ?s "[''dau'', ''quad'', ''uad'']"]
    by (rule conjunct1)
  then show ?thesis using a v by blast
qed



text \<open>
  C8. For a solver that \<open>New\<close> built, with a number of cells that is a machine integer,
  and an ASCII grid of exactly columns*rows characters, \<open>Solve\<close> terminates and does
  not fail. The loop over the frontier empties every queue of valid states: a state
  that the loop puts on the queue has a visited list one longer than that of the state
  it extends, and the visited list of a valid state is no longer than the board.
\<close>

theorem Solve_terminates:
  assumes "New xlen ylen (Inr lines) = Inr s" "xlen * ylen < 2 ^ 63"
    "int (length grid) = xlen * ylen" "isASCII grid"
  shows "(\<exists>ws. Solve s grid = Some (Inr ws))
       \<and> (\<forall>t q words. rt s = Some t \<and> list_all (validState s t) q \<longrightarrow>
            (\<exists>ws. drain s (ToLower grid) q words = Some (Inr ws)))
       \<and> (\<forall>t qn adj child. validState s t qn \<and> list_all (inGrid xlen ylen) adj
              \<and> child \<in> set (pushed (ToLower grid) qn adj) \<longrightarrow>
            validState s t child
            \<and> length (seen child) = Suc (length (seen qn))
            \<and> length (seen child) \<le> nat (xlen * ylen))"
proof -
  obtain t0 where t: "rt s = Some t0" "cols s = xlen" "rows s = ylen" "1 \<le> cols s" "1 \<le> rows s"
    "cols s * rows s < 2 ^ 63"
    using New_dims[OF assms(1,2)] by blast
  have len: "int (length grid) = cols s * rows s" using assms(3) t by simp
  have f: "fits s (ToLower grid)" using fits_ToLower[OF t(4,5,6) len] .
  have 1: "\<exists>ws. Solve s grid = Some (Inr ws)"
    using Solve_returns[OF t(1,4,5,6) len] .
  have 2: "\<forall>t q words. rt s = Some t \<and> list_all (validState s t) q \<longrightarrow>
            (\<exists>ws. drain s (ToLower grid) q words = Some (Inr ws))"
    using drain_total[OF f] by blast
  have 3: "\<forall>t qn adj child. validState s t qn \<and> list_all (inGrid xlen ylen) adj
              \<and> child \<in> set (pushed (ToLower grid) qn adj) \<longrightarrow>
            validState s t child
            \<and> length (seen child) = Suc (length (seen qn))
            \<and> length (seen child) \<le> nat (xlen * ylen)"
  proof (intro allI impI)
    fix t qn adj child
    assume h: "validState s t qn \<and> list_all (inGrid xlen ylen) adj
              \<and> child \<in> set (pushed (ToLower grid) qn adj)"
    then obtain c where c: "c \<in> set adj" "extendsTo (ToLower grid) qn c"
      "child = childState (ToLower grid) qn c"
      unfolding set_pushed by blast
    have g: "inGrid (cols s) (rows s) c" using h c(1) t(2,3) by (simp add: list_all_iff)
    have ns: "c \<notin> set (seen qn)" using c(2) by (simp add: extendsTo_def)
    have v: "validState s t child"
      unfolding c(3) using valid_childState[of s t qn c] h g ns by simp
    have l: "length (seen child) = Suc (length (seen qn))"
      by (simp add: c(3) childState_def)
    have "length (seen qn) < nat (cols s * rows s)"
      using seen_length_less[of s t qn c] h g ns by simp
    then have "length (seen child) \<le> nat (xlen * ylen)" using l t(2,3) by simp
    then show "validState s t child
            \<and> length (seen child) = Suc (length (seen qn))
            \<and> length (seen child) \<le> nat (xlen * ylen)"
      using v l by simp
  qed
  from 1 2 3 show ?thesis by blast
qed

theorem Solve_terminates_witness:
  "New 2 2 (Inr [''uad'', ''quad'', ''dau'', ''Cat''])
     = Inr \<lparr>cols = 2, rows = 2, rt = Some (Tree [''uad'', ''qad'', ''dau''])\<rparr>
   \<and> isASCII ''qAud''
   \<and> (\<exists>ws. Solve \<lparr>cols = 2, rows = 2, rt = Some (Tree [''uad'', ''qad'', ''dau''])\<rparr> ''qAud''
         = Some (Inr ws))
   \<and> validState \<lparr>cols = 2, rows = 2, rt = Some (Tree [''uad'', ''qad'', ''dau''])\<rparr>
        (Tree [''uad'', ''qad'', ''dau'']) (initState (Tree [''uad'', ''qad'', ''dau'']) ''qaud'' 0)
   \<and> (\<exists>ws. drain \<lparr>cols = 2, rows = 2, rt = Some (Tree [''uad'', ''qad'', ''dau''])\<rparr> (ToLower ''qAud'')
         [initState (Tree [''uad'', ''qad'', ''dau'']) ''qaud'' 0] [] = Some (Inr ws))"
proof -
  let ?t = "Tree [''uad'', ''qad'', ''dau'']"
  let ?s = "\<lparr>cols = 2, rows = 2, rt = Some ?t\<rparr>"
  have n: "New 2 2 (Inr [''uad'', ''quad'', ''dau'', ''Cat'']) = Inr ?s"
    by (simp add: New_def loadWords_def Put_def mul64_def wrap64_def)
  have a: "isASCII ''qAud''" by (simp add: isASCII_def)
  have v: "validState ?s ?t (initState ?t ''qaud'' 0)"
    by (simp add: validState_def initState_def inGrid_def Next_def NewStepper_def)
  note th = Solve_terminates[OF n _ _ a, simplified]
  have 1: "\<exists>ws. Solve ?s ''qAud'' = Some (Inr ws)" using th by blast
  have 2: "\<exists>ws. drain ?s (ToLower ''qAud'') [initState ?t ''qaud'' 0] [] = Some (Inr ws)"
    using th v by simp
  from n a 1 v 2 show ?thesis by blast
qed

end
